theory Spec2Isabelle
  imports Main "HOL-Library.Word" "HOL-Library.Sublist"
begin

unbundle bit_operations_syntax

section \<open>The Hedera application API of hw-app-hedera (Hedera.ts)\<close>

text \<open>
  A shallow embedding of \<^verbatim>\<open>packages/hw-app-hedera/src/Hedera.ts\<close>. Promises are
  modelled by explicit state passing: an asynchronous function takes the state of the
  transport and returns its outcome together with the new state; a rejected promise (a
  thrown exception) is the left summand of the outcome.
\<close>

subsection \<open>Constants\<close>

definition CHUNK_SIZE :: nat where "CHUNK_SIZE = 250"
definition CLA :: nat where "CLA = 0xe0"

definition INS_GET_VERSION :: nat where "INS_GET_VERSION = 0x00"
definition INS_GET_ADDR :: nat where "INS_GET_ADDR = 0x02"
definition INS_SIGN :: nat where "INS_SIGN = 0x04"

definition PAYLOAD_TYPE_INIT :: nat where "PAYLOAD_TYPE_INIT = 0x00"
definition PAYLOAD_TYPE_ADD :: nat where "PAYLOAD_TYPE_ADD = 0x01"
definition PAYLOAD_TYPE_LAST :: nat where "PAYLOAD_TYPE_LAST = 0x02"

definition SW_OK :: nat where "SW_OK = 0x9000"
definition SW_CANCEL :: nat where "SW_CANCEL = 0x6986"

subsection \<open>Buffers\<close>

text \<open>
  A \<^verbatim>\<open>Buffer\<close> is a list of bytes. The operations below are those of the platform's
  \<^verbatim>\<open>Buffer\<close> class that the source calls, with their range checks: \<^verbatim>\<open>writeInt8\<close>
  accepts a signed 8-bit value only and throws a range error otherwise, \<^verbatim>\<open>slice\<close>
  counts a negative index from the end and clamps both indices to the length of the
  buffer, and reading an index beyond the length gives \<^verbatim>\<open>undefined\<close>, which
  arithmetic turns into \<^verbatim>\<open>NaN\<close>.
\<close>

type_synonym byte = "8 word"
type_synonym u32 = "32 word"
type_synonym buffer = "byte list"

datatype error =
    RangeError
  | TypeError
  | PathError
  | UserRefusedAddress
  | UserRefusedOnDevice
  | TransportError nat

datatype number = Num nat | NaN

definition alloc :: "nat \<Rightarrow> buffer" where
  "alloc n = replicate n 0"

definition writeInt8 :: "buffer \<Rightarrow> int \<Rightarrow> nat \<Rightarrow> error + buffer" where
  "writeInt8 buf v offset =
     (if v > 127 \<or> v < - 128 then Inl RangeError
      else if offset + 1 > length buf then Inl RangeError
      else Inr (buf[offset := word_of_int v]))"

definition writeUInt32BE :: "buffer \<Rightarrow> u32 \<Rightarrow> nat \<Rightarrow> error + buffer" where
  "writeUInt32BE buf v offset =
     (if offset + 4 > length buf then Inl RangeError
      else Inr (buf[offset := ucast (drop_bit 24 v),
                    offset + 1 := ucast (drop_bit 16 v),
                    offset + 2 := ucast (drop_bit 8 v),
                    offset + 3 := ucast v]))"

definition adjust_index :: "int \<Rightarrow> nat \<Rightarrow> nat" where
  "adjust_index i len =
     (if i < 0 then nat (max (int len + i) 0) else min (nat i) len)"

definition slice_buffer :: "buffer \<Rightarrow> int \<Rightarrow> int \<Rightarrow> buffer" where
  "slice_buffer buf start endpos =
     (let s = adjust_index start (length buf);
          e = adjust_index endpos (length buf)
      in take (e - s) (drop s buf))"

definition index_num :: "buffer \<Rightarrow> nat \<Rightarrow> number" where
  "index_num buf i = (if i < length buf then Num (unat (buf ! i)) else NaN)"

fun num_times :: "number \<Rightarrow> nat \<Rightarrow> number" where
  "num_times (Num a) k = Num (a * k)"
| "num_times NaN k = NaN"

fun num_plus :: "number \<Rightarrow> number \<Rightarrow> number" where
  "num_plus (Num a) (Num b) = Num (a + b)"
| "num_plus _ _ = NaN"

definition hex_digit :: "nat \<Rightarrow> char" where
  "hex_digit n = (if n < 10 then char_of (48 + n) else char_of (87 + n))"

definition toString_hex :: "buffer \<Rightarrow> string" where
  "toString_hex buf =
     concat (map (\<lambda>b. [hex_digit (unat b div 16), hex_digit (unat b mod 16)]) buf)"

text \<open>
  \<^verbatim>\<open>Buffer.from(message)\<close> of a string is its UTF-8 encoding. A \<^typ>\<open>string\<close> here is
  the sequence of the UTF-8 bytes of the text, so the conversion is byte for byte.
\<close>

definition Buffer_from :: "string \<Rightarrow> buffer" where
  "Buffer_from message = map (\<lambda>c. of_nat (of_char c)) message"

text \<open>Decimal rendering of a number, as string concatenation does it.\<close>

fun decimal :: "nat \<Rightarrow> string" where
  "decimal n =
     (if n < 10 then [char_of (48 + n)]
      else decimal (n div 10) @ [char_of (48 + n mod 10)])"

declare decimal.simps [simp del]

definition index_string :: "buffer \<Rightarrow> nat \<Rightarrow> string" where
  "index_string buf i =
     (if i < length buf then decimal (unat (buf ! i)) else ''undefined'')"

subsection \<open>serializePath\<close>

text \<open>
  \<^verbatim>\<open>path.forEach((segment, index) => data.writeUInt32BE(segment, 1 + index * 4))\<close>:
  the loop over the segments, with the running index and the buffer being written.
\<close>

fun forEach_segment :: "u32 list \<Rightarrow> nat \<Rightarrow> buffer \<Rightarrow> error + buffer" where
  "forEach_segment [] index buf = Inr buf"
| "forEach_segment (segment # rest) index buf =
     (case writeUInt32BE buf segment (1 + index * 4) of
        Inl e \<Rightarrow> Inl e
      | Inr buf' \<Rightarrow> forEach_segment rest (index + 1) buf')"

definition serializePath :: "u32 list \<Rightarrow> error + buffer" where
  "serializePath path =
     (case writeInt8 (alloc (1 + length path * 4)) (int (length path)) 0 of
        Inl e \<Rightarrow> Inl e
      | Inr buf \<Rightarrow> forEach_segment path 0 buf)"

text \<open>
  Reading the encoding back: the big-endian value of the four bytes at an offset, and the
  segments of an encoded path (the 4-byte groups after the length byte).
\<close>

definition readUInt32BE :: "buffer \<Rightarrow> nat \<Rightarrow> u32" where
  "readUInt32BE buf offset =
     push_bit 24 (ucast (buf ! offset)) OR push_bit 16 (ucast (buf ! (offset + 1)))
       OR push_bit 8 (ucast (buf ! (offset + 2))) OR ucast (buf ! (offset + 3))"

definition decode_segments :: "buffer \<Rightarrow> u32 list" where
  "decode_segments buf =
     map (\<lambda>i. readUInt32BE buf (1 + i * 4)) [0..<(length buf - 1) div 4]"

definition be32 :: "u32 \<Rightarrow> buffer" where
  "be32 v = [ucast (drop_bit 24 v), ucast (drop_bit 16 v), ucast (drop_bit 8 v), ucast v]"

subsection \<open>The transport\<close>

text \<open>
  \<^verbatim>\<open>transport.send(cla, ins, p1, p2, data, statusList)\<close> belongs to the transport
  package; its last two arguments are optional. The device behind it is a parameter of
  the model: an exchange function that, from the state of the device and the arguments of
  the call, gives the new state and either the reply or the code of the failure that the
  transport throws. A trace records the arguments of every call when the frame is sent
  and the outcome of the exchange when it comes back.
\<close>

record apdu =
  apdu_cla :: nat
  apdu_ins :: nat
  apdu_p1 :: nat
  apdu_p2 :: nat
  apdu_data :: "buffer option"
  apdu_statusList :: "nat list option"

datatype event = Sent apdu | Replied "nat + buffer"

type_synonym 'd exchange = "'d \<Rightarrow> apdu \<Rightarrow> (nat + buffer) \<times> 'd"
type_synonym 'd transport = "'d \<times> event list"

text \<open>
  A call of an asynchronous function has its immediate effects at once and returns a
  promise; the promise settles later, from the state it finds then, with a value or with
  a rejection. A promise is the function from the state at that moment to the outcome
  and the new state. The call of \<^verbatim>\<open>transport.send\<close> puts the frame on the wire;
  its promise settles when the outcome of the exchange comes back. With \<^verbatim>\<open>await\<close>
  in front of the call nothing happens in between.
\<close>

type_synonym ('a, 's) promise = "'s \<Rightarrow> (error + 'a) \<times> 's"

definition send_call :: "apdu \<Rightarrow> 'd transport \<Rightarrow> 'd transport" where
  "send_call a t = (fst t, snd t @ [Sent a])"

definition send_settle :: "'d exchange \<Rightarrow> apdu \<Rightarrow> (buffer, 'd transport) promise" where
  "send_settle exchange a t =
     (case exchange (fst t) a of
        (Inl c, d') \<Rightarrow> (Inl (TransportError c), (d', snd t @ [Replied (Inl c)]))
      | (Inr response, d') \<Rightarrow> (Inr response, (d', snd t @ [Replied (Inr response)])))"

definition send :: "'d exchange \<Rightarrow> apdu \<Rightarrow> 'd transport \<Rightarrow> (error + buffer) \<times> 'd transport" where
  "send exchange a t = send_settle exchange a (send_call a t)"

subsection \<open>foreach\<close>

text \<open>
  \<^verbatim>\<open>iterate(index, array, result)\<close> calls the callback on the element at the index
  and, in the \<^verbatim>\<open>then\<close> of the promise that the call returns, once that promise has
  settled, pushes the value and goes on with the next index; a rejection of the promise
  ends the iteration.
\<close>

function iterate ::
  "('a \<Rightarrow> nat \<Rightarrow> 's \<Rightarrow> ('b, 's) promise \<times> 's) \<Rightarrow> nat \<Rightarrow> 'a list \<Rightarrow> 'b list \<Rightarrow> 's
     \<Rightarrow> (error + 'b list) \<times> 's" where
  "iterate callback index array result s =
     (if index \<ge> length array then (Inr result, s)
      else case callback (array ! index) index s of
             (promise, s1) \<Rightarrow>
               (case promise s1 of
                  (Inl e, s') \<Rightarrow> (Inl e, s')
                | (Inr res, s') \<Rightarrow> iterate callback (index + 1) array (result @ [res]) s'))"
  by pat_completeness auto
termination
  by (relation "measure (\<lambda>(callback, index, array, result, s). length array - index)") auto

declare iterate.simps [simp del]

definition foreach ::
  "'a list \<Rightarrow> ('a \<Rightarrow> nat \<Rightarrow> 's \<Rightarrow> ('b, 's) promise \<times> 's) \<Rightarrow> 's \<Rightarrow> (error + 'b list) \<times> 's" where
  "foreach arr callback s = iterate callback 0 arr [] s"

subsection \<open>Results\<close>

record result =
  returnCode :: number

record addressResult = result +
  publicKey :: string
  address :: string

record signResult = result +
  signature :: "buffer option"

record versionResult =
  version :: string

text \<open>
  \<^verbatim>\<open>const errorCodeData = response.slice(-2);
  const returnCode = errorCodeData[0] * 0x100 + errorCodeData[1];\<close>
\<close>

definition decode_returnCode :: "buffer \<Rightarrow> number" where
  "decode_returnCode response =
     (let errorCodeData = slice_buffer response (- 2) (int (length response))
      in num_plus (num_times (index_num errorCodeData 0) 0x100) (index_num errorCodeData 1))"

subsection \<open>getAddress\<close>

text \<open>
  \<^verbatim>\<open>BIPPath.fromString(path).toPathArray()\<close> belongs to the path-parsing package; it is
  the parameter \<open>fromString\<close>, which gives the segments of the path, or nothing where
  the package throws.
\<close>

definition getAddress ::
  "'d exchange \<Rightarrow> (string \<Rightarrow> u32 list option) \<Rightarrow> string \<Rightarrow> bool option \<Rightarrow> 'd transport
     \<Rightarrow> (error + addressResult) \<times> 'd transport" where
  "getAddress exchange fromString path display t =
     (case fromString path of
        None \<Rightarrow> (Inl PathError, t)
      | Some bipPath \<Rightarrow>
          (case serializePath bipPath of
             Inl e \<Rightarrow> (Inl e, t)
           | Inr serializedPath \<Rightarrow>
               (let p1 = (if display = Some True then 0x01 else 0x00);
                    p2 = 0x00;
                    statusList = [SW_OK, SW_CANCEL]
                in case send exchange
                          \<lparr>apdu_cla = CLA, apdu_ins = INS_GET_ADDR, apdu_p1 = p1, apdu_p2 = p2,
                           apdu_data = Some serializedPath, apdu_statusList = Some statusList\<rparr> t of
                     (Inl e, t') \<Rightarrow> (Inl e, t')
                   | (Inr response, t') \<Rightarrow>
                       (let rc = decode_returnCode response
                        in if rc = Num SW_CANCEL then (Inl UserRefusedAddress, t')
                           else (Inr \<lparr>returnCode = rc,
                                      publicKey = toString_hex response,
                                      address = ''''\<rparr>, t')))))"

subsection \<open>signTransaction\<close>

text \<open>
  The loop that cuts the message:
  \<^verbatim>\<open>for (let i = 0; i < buffer.length; i += CHUNK_SIZE) { let end = i + CHUNK_SIZE;
  if (i > buffer.length) { end = buffer.length; } chunks.push(buffer.slice(i, end)); }\<close>
\<close>

function chunk_loop :: "buffer \<Rightarrow> nat \<Rightarrow> buffer list \<Rightarrow> buffer list" where
  "chunk_loop buf i chunks =
     (if i < length buf then
        (let endpos = (if i > length buf then length buf else i + CHUNK_SIZE)
         in chunk_loop buf (i + CHUNK_SIZE) (chunks @ [slice_buffer buf (int i) (int endpos)]))
      else chunks)"
  by pat_completeness auto
termination
  by (relation "measure (\<lambda>(buf, i, chunks). length buf - i)") (auto simp add: CHUNK_SIZE_def)

declare chunk_loop.simps [simp del]

definition payload_type :: "nat \<Rightarrow> nat \<Rightarrow> nat" where
  "payload_type j n =
     (if j = 0 then PAYLOAD_TYPE_INIT
      else if j + 1 = n then PAYLOAD_TYPE_LAST
      else PAYLOAD_TYPE_ADD)"

definition sign_apdu :: "nat \<Rightarrow> buffer \<Rightarrow> nat \<Rightarrow> apdu" where
  "sign_apdu n chunk j =
     \<lparr>apdu_cla = CLA, apdu_ins = INS_SIGN, apdu_p1 = payload_type j n, apdu_p2 = 0,
      apdu_data = Some chunk, apdu_statusList = Some [SW_OK, SW_CANCEL]\<rparr>"

text \<open>
  The callback of \<^verbatim>\<open>foreach\<close>: the call sends the chunk; the \<^verbatim>\<open>then\<close> of the
  promise stores the reply in the variable \<^verbatim>\<open>response\<close> of the enclosing function,
  which is the second component of the state.
\<close>

definition sign_callback ::
  "'d exchange \<Rightarrow> nat \<Rightarrow> buffer \<Rightarrow> nat \<Rightarrow> 'd transport \<times> buffer option
     \<Rightarrow> (buffer, 'd transport \<times> buffer option) promise \<times> ('d transport \<times> buffer option)" where
  "sign_callback exchange n chunk j s =
     (\<lambda>s'. case send_settle exchange (sign_apdu n chunk j) (fst s') of
              (Inl e, t') \<Rightarrow> (Inl e, (t', snd s'))
            | (Inr apduResponse, t') \<Rightarrow> (Inr apduResponse, (t', Some apduResponse)),
      (send_call (sign_apdu n chunk j) (fst s), snd s))"

definition sign_result :: "buffer option \<Rightarrow> error + signResult" where
  "sign_result response =
     (case response of
        None \<Rightarrow> Inl TypeError
      | Some r \<Rightarrow>
          (let rc = decode_returnCode r;
               sig = (if length r > 2 then Some (slice_buffer r 0 (int (length r) - 2)) else None)
           in if rc = Num SW_CANCEL then Inl UserRefusedOnDevice
              else Inr \<lparr>returnCode = rc, signature = sig\<rparr>))"

definition signTransaction ::
  "'d exchange \<Rightarrow> (string \<Rightarrow> u32 list option) \<Rightarrow> string \<Rightarrow> string \<Rightarrow> 'd transport
     \<Rightarrow> (error + signResult) \<times> 'd transport" where
  "signTransaction exchange fromString path message t =
     (case fromString path of
        None \<Rightarrow> (Inl PathError, t)
      | Some bipPath \<Rightarrow>
          (case serializePath bipPath of
             Inl e \<Rightarrow> (Inl e, t)
           | Inr serializedPath \<Rightarrow>
               (let chunks = chunk_loop (Buffer_from message) 0 [serializedPath]
                in case foreach chunks (sign_callback exchange (length chunks)) (t, None) of
                     (Inl e, s') \<Rightarrow> (Inl e, fst s')
                   | (Inr rs, s') \<Rightarrow> (sign_result (snd s'), fst s'))))"

subsection \<open>getAppConfiguration\<close>

definition getAppConfiguration ::
  "'d exchange \<Rightarrow> 'd transport \<Rightarrow> (error + versionResult) \<times> 'd transport" where
  "getAppConfiguration exchange t =
     (case send exchange
             \<lparr>apdu_cla = CLA, apdu_ins = INS_GET_VERSION, apdu_p1 = 0x00, apdu_p2 = 0x00,
              apdu_data = None, apdu_statusList = None\<rparr> t of
        (Inl e, t') \<Rightarrow> (Inl e, t')
      | (Inr response, t') \<Rightarrow>
          (Inr \<lparr>version = index_string response 1 @ ''.'' @ index_string response 2
                             @ ''.'' @ index_string response 3\<rparr>, t'))"

subsection \<open>Observing a trace\<close>

fun sent :: "event list \<Rightarrow> apdu list" where
  "sent [] = []"
| "sent (Sent a # es) = a # sent es"
| "sent (Replied r # es) = sent es"

definition payload :: "apdu \<Rightarrow> buffer" where
  "payload a = (case apdu_data a of None \<Rightarrow> [] | Some b \<Rightarrow> b)"

text \<open>A trace is sequential when every frame sent is followed by its outcome before
  anything else is sent.\<close>

fun sequential :: "event list \<Rightarrow> bool" where
  "sequential [] = True"
| "sequential (Sent a # Replied r # es) = sequential es"
| "sequential _ = False"

definition final_reply :: "event list \<Rightarrow> buffer option" where
  "final_reply es = (case rev es of Replied (Inr r) # _ \<Rightarrow> Some r | _ \<Rightarrow> None)"

definition passes_status :: "apdu \<Rightarrow> nat \<Rightarrow> bool" where
  "passes_status a sw = (case apdu_statusList a of None \<Rightarrow> False | Some l \<Rightarrow> sw \<in> set l)"

definition sign_frames :: "buffer list \<Rightarrow> apdu list" where
  "sign_frames chunks = map (\<lambda>j. sign_apdu (length chunks) (chunks ! j) j) [0..<length chunks]"

definition be16 :: "buffer \<Rightarrow> nat" where
  "be16 response =
     unat (response ! (length response - 2)) * 256 + unat (response ! (length response - 1))"

text \<open>The two components of a run: what the call returns or throws, and the trace.\<close>

definition outcome :: "'r \<times> 'd transport \<Rightarrow> 'r" where
  "outcome run = fst run"

definition trace :: "'r \<times> 'd transport \<Rightarrow> event list" where
  "trace run = snd (snd run)"

text \<open>The frame that \<^verbatim>\<open>getAddress\<close> sends.\<close>

definition address_apdu :: "bool option \<Rightarrow> buffer \<Rightarrow> apdu" where
  "address_apdu display serializedPath =
     \<lparr>apdu_cla = CLA, apdu_ins = INS_GET_ADDR,
      apdu_p1 = (if display = Some True then 0x01 else 0x00), apdu_p2 = 0x00,
      apdu_data = Some serializedPath, apdu_statusList = Some [SW_OK, SW_CANCEL]\<rparr>"

text \<open>Devices and parsers for concrete runs: a device that answers every frame with the
  same reply, and a parser that gives the same segments for every string.\<close>

definition reply_with :: "buffer \<Rightarrow> unit exchange" where
  "reply_with r d a = (Inr r, d)"

definition parsed_as :: "u32 list \<Rightarrow> string \<Rightarrow> u32 list option" where
  "parsed_as segments path = Some segments"

text \<open>
  Sending a list of frames one after the other, each once the outcome of the one before
  is known, and the trace such a run leaves: what \<^verbatim>\<open>foreach\<close> does with the
  callback of \<^verbatim>\<open>signTransaction\<close>, as the lemmas below show.
\<close>

fun exchange_all :: "'d exchange \<Rightarrow> apdu list \<Rightarrow> 'd transport \<Rightarrow> (error + buffer list) \<times> 'd transport" where
  "exchange_all exchange [] t = (Inr [], t)"
| "exchange_all exchange (a # rest) t =
     (case send exchange a t of
        (Inl e, t') \<Rightarrow> (Inl e, t')
      | (Inr r, t') \<Rightarrow>
          (case exchange_all exchange rest t' of
             (Inl e, t'') \<Rightarrow> (Inl e, t'')
           | (Inr rs, t'') \<Rightarrow> (Inr (r # rs), t'')))"

fun interleave :: "apdu list \<Rightarrow> (nat + buffer) list \<Rightarrow> event list" where
  "interleave (a # as) (r # rs) = Sent a # Replied r # interleave as rs"
| "interleave _ _ = []"

section \<open>Properties\<close>

subsection \<open>Path encoding\<close>

lemma length_be32 [simp]: "length (be32 v) = 4"
  by (simp add: be32_def)

lemma writeUInt32BE_append:
  "writeUInt32BE (a @ z0 # z1 # z2 # z3 # z) v (length a) = Inr (a @ be32 v @ z)"
  by (simp add: writeUInt32BE_def list_update_append be32_def)

lemma forEach_segment_append:
  "length a = 1 + index * 4 \<Longrightarrow> length z = 4 * length rest \<Longrightarrow>
   forEach_segment rest index (a @ z) = Inr (a @ concat (map be32 rest))"
proof (induction rest arbitrary: index a z)
  case Nil
  then show ?case by simp
next
  case (Cons segment rest)
  from Cons.prems(2) obtain z0 z1 z2 z3 z' where z: "z = z0 # z1 # z2 # z3 # z'"
    by (auto simp add: length_Suc_conv eval_nat_numeral)
  with Cons.prems(2) have len: "length z' = 4 * length rest" by simp
  have w: "writeUInt32BE (a @ z) segment (1 + index * 4) = Inr ((a @ be32 segment) @ z')"
    using writeUInt32BE_append [of a z0 z1 z2 z3 z' segment] Cons.prems(1) z by simp
  have "forEach_segment rest (index + 1) ((a @ be32 segment) @ z')
          = Inr ((a @ be32 segment) @ concat (map be32 rest))"
    by (rule Cons.IH) (use Cons.prems(1) len in simp_all)
  with w show ?case by simp
qed

lemma serializePath_ok:
  assumes "length path \<le> 127"
  shows "serializePath path = Inr (word_of_nat (length path) # concat (map be32 path))"
proof -
  have "forEach_segment path 0 ([word_of_nat (length path)] @ replicate (4 * length path) 0)
          = Inr ([word_of_nat (length path)] @ concat (map be32 path))"
    by (rule forEach_segment_append) simp_all
  with assms show ?thesis
    by (simp add: serializePath_def writeInt8_def alloc_def mult.commute)
qed

lemma serializePath_fail:
  "127 < length path \<Longrightarrow> serializePath path = Inl RangeError"
  by (simp add: serializePath_def writeInt8_def)

lemma be32_roundtrip:
  "push_bit 24 (ucast (ucast (drop_bit 24 v :: u32) :: byte)) OR push_bit 16 (ucast (ucast (drop_bit 16 v) :: byte))
       OR push_bit 8 (ucast (ucast (drop_bit 8 v) :: byte)) OR ucast (ucast v :: byte) = (v :: u32)"
proof (rule bit_word_eqI)
  fix n assume n: "n < LENGTH(32)"
  consider "n < 8" | "8 \<le> n" "n < 16" | "16 \<le> n" "n < 24" | "24 \<le> n" "n < 32"
    using n by fastforce
  then show "bit (push_bit 24 (ucast (ucast (drop_bit 24 v :: u32) :: byte)) OR push_bit 16 (ucast (ucast (drop_bit 16 v) :: byte))
       OR push_bit 8 (ucast (ucast (drop_bit 8 v) :: byte)) OR ucast (ucast v :: byte) :: u32) n = bit v n"
    by cases (auto simp add: bit_simps)
qed

lemma readUInt32BE_Cons: "readUInt32BE (b # c) (Suc n) = readUInt32BE c n"
  by (simp add: readUInt32BE_def add.commute)

lemma readUInt32BE_be32: "readUInt32BE (be32 v @ r) 0 = v"
  by (simp add: readUInt32BE_def be32_def be32_roundtrip)

lemma readUInt32BE_skip: "readUInt32BE (be32 x @ r) (4 + n) = readUInt32BE r n"
  by (simp add: readUInt32BE_def nth_append add.commute)

lemma readUInt32BE_concat:
  "i < length path \<Longrightarrow> readUInt32BE (concat (map be32 path)) (i * 4) = path ! i"
proof (induction path arbitrary: i)
  case Nil
  then show ?case by simp
next
  case (Cons x path)
  show ?case
  proof (cases i)
    case 0
    then show ?thesis by (simp add: readUInt32BE_be32)
  next
    case (Suc j)
    with Cons.prems have "j < length path" by simp
    then have "readUInt32BE (concat (map be32 path)) (j * 4) = path ! j"
      by (rule Cons.IH)
    with Suc show ?thesis by (simp add: readUInt32BE_skip)
  qed
qed

lemma readUInt32BE_encoded:
  "i < length path \<Longrightarrow> readUInt32BE (b # concat (map be32 path)) (Suc (i * 4)) = path ! i"
  by (simp add: readUInt32BE_Cons readUInt32BE_concat)

lemma length_concat_be32 [simp]: "length (concat (map be32 path)) = 4 * length path"
  by (induction path) simp_all

lemma decode_segments_encoded:
  "decode_segments (b # concat (map be32 path)) = path"
  by (rule nth_equalityI) (simp_all add: decode_segments_def readUInt32BE_encoded)

lemma unat_length_byte: "n \<le> 127 \<Longrightarrow> unat (word_of_nat n :: byte) = n"
  by (simp add: unat_of_nat)

subsection \<open>The exchanges of foreach\<close>

lemma iterate_sign_exchange_all:
  "length chunks - i = k \<Longrightarrow> i \<le> length chunks \<Longrightarrow>
   (case exchange_all ex (map (\<lambda>j. sign_apdu n (chunks ! j) j) [i..<length chunks]) t of
      (Inl e, t') \<Rightarrow> (\<exists>resp'. iterate (sign_callback ex n) i chunks result (t, resp) = (Inl e, (t', resp')))
    | (Inr rs, t') \<Rightarrow> iterate (sign_callback ex n) i chunks result (t, resp)
                       = (Inr (result @ rs), (t', if rs = [] then resp else Some (last rs))))"
proof (induction k arbitrary: i result t resp)
  case 0
  then show ?case by (simp add: iterate.simps)
next
  case (Suc k)
  then have lt: "i < length chunks" by simp
  let ?a = "sign_apdu n (chunks ! i) i"
  let ?rest = "map (\<lambda>j. sign_apdu n (chunks ! j) j) [Suc i..<length chunks]"
  have frames: "map (\<lambda>j. sign_apdu n (chunks ! j) j) [i..<length chunks] = ?a # ?rest"
    using lt by (simp add: upt_conv_Cons)
  obtain x t1 where s: "send ex ?a t = (x, t1)" by (cases "send ex ?a t")
  then have s': "send_settle ex ?a (send_call ?a t) = (x, t1)" by (simp add: send_def)
  show ?case
  proof (cases x)
    case (Inl e)
    with s s' lt show ?thesis
      by (simp add: frames iterate.simps [of _ i] sign_callback_def)
  next
    case (Inr r)
    have ih: "case exchange_all ex ?rest t1 of
      (Inl e, t') \<Rightarrow> (\<exists>resp'. iterate (sign_callback ex n) (Suc i) chunks (result @ [r]) (t1, Some r) = (Inl e, (t', resp')))
    | (Inr rs, t') \<Rightarrow> iterate (sign_callback ex n) (Suc i) chunks (result @ [r]) (t1, Some r)
                       = (Inr ((result @ [r]) @ rs), (t', if rs = [] then Some r else Some (last rs)))"
      by (rule Suc.IH) (use Suc.prems in simp_all)
    have unfold: "iterate (sign_callback ex n) i chunks result (t, resp)
        = iterate (sign_callback ex n) (Suc i) chunks (result @ [r]) (t1, Some r)"
      using s' Inr lt by (simp add: iterate.simps [of _ i] sign_callback_def)
    obtain y t2 where e: "exchange_all ex ?rest t1 = (y, t2)" by (cases "exchange_all ex ?rest t1")
    show ?thesis
      using ih s Inr e unfold by (cases y) (auto simp add: frames)
  qed
qed

lemma send_trace:
  "\<exists>r. snd (snd (send ex a t)) = snd t @ [Sent a, Replied r]
     \<and> fst (send ex a t) = (case r of Inl c \<Rightarrow> Inl (TransportError c) | Inr b \<Rightarrow> Inr b)"
  by (cases "ex (fst t) a")
    (auto simp add: send_def send_call_def send_settle_def split: sum.splits)

lemma exchange_all_trace:
  "\<exists>outs. snd (snd (exchange_all ex fs t)) = snd t @ interleave fs outs
      \<and> length outs \<le> length fs
      \<and> (case fst (exchange_all ex fs t) of
            Inr rs \<Rightarrow> outs = map Inr rs \<and> length rs = length fs
          | Inl e \<Rightarrow> (\<exists>c pre. e = TransportError c \<and> outs = map Inr pre @ [Inl c]))"
proof (induction fs arbitrary: t)
  case Nil
  show ?case by (rule exI [of _ "[]"]) simp
next
  case (Cons a fs)
  obtain x t1 where s: "send ex a t = (x, t1)" by (cases "send ex a t")
  from send_trace [of ex a t] s obtain r where
    r: "snd t1 = snd t @ [Sent a, Replied r]"
       "x = (case r of Inl c \<Rightarrow> Inl (TransportError c) | Inr b \<Rightarrow> Inr b)"
    by auto
  show ?case
  proof (cases r)
    case (Inl c)
    show ?thesis
      by (rule exI [of _ "[Inl c]"]) (use s r Inl in simp)
  next
    case (Inr b)
    from Cons.IH [of t1] obtain outs where
      o: "snd (snd (exchange_all ex fs t1)) = snd t1 @ interleave fs outs"
         "length outs \<le> length fs"
         "case fst (exchange_all ex fs t1) of
            Inr rs \<Rightarrow> outs = map Inr rs \<and> length rs = length fs
          | Inl e \<Rightarrow> (\<exists>c pre. e = TransportError c \<and> outs = map Inr pre @ [Inl c])"
      by blast
    obtain y t2 where e: "exchange_all ex fs t1 = (y, t2)" by (cases "exchange_all ex fs t1")
    show ?thesis
    proof (rule exI [of _ "Inr b # outs"], cases y)
      case (Inl err)
      with o e obtain c pre where "err = TransportError c" "outs = map Inr pre @ [Inl c]" by auto
      then have "Inr b # outs = map Inr (b # pre) @ [Inl c]" by simp
      with s r Inr e o Inl \<open>err = TransportError c\<close> show "snd (snd (exchange_all ex (a # fs) t)) = snd t @ interleave (a # fs) (Inr b # outs) \<and>
    length (Inr b # outs) \<le> length (a # fs) \<and>
    (case fst (exchange_all ex (a # fs) t) of
     Inl e \<Rightarrow> \<exists>c pre. e = TransportError c \<and> Inr b # outs = map Inr pre @ [Inl c]
     | Inr rs \<Rightarrow> Inr b # outs = map Inr rs \<and> length rs = length (a # fs))"
        by simp (rule exI [of _ "b # pre"], simp)
    next
      case (Inr rs)
      with s r \<open>r = Inr b\<close> e o show "snd (snd (exchange_all ex (a # fs) t)) = snd t @ interleave (a # fs) (Inr b # outs) \<and>
    length (Inr b # outs) \<le> length (a # fs) \<and>
    (case fst (exchange_all ex (a # fs) t) of
     Inl e \<Rightarrow> \<exists>c pre. e = TransportError c \<and> Inr b # outs = map Inr pre @ [Inl c]
     | Inr rs \<Rightarrow> Inr b # outs = map Inr rs \<and> length rs = length (a # fs))"
        by simp
    qed
  qed
qed

subsection \<open>Cutting the message\<close>

lemma slice_chunk:
  "i < length buf \<Longrightarrow>
   slice_buffer buf (int i) (int i + int CHUNK_SIZE) = take CHUNK_SIZE (drop i buf)"
  by (simp add: slice_buffer_def adjust_index_def Let_def min_def nat_add_distrib)

lemma chunk_loop_step:
  "i < length buf \<Longrightarrow>
   chunk_loop buf i chunks = chunk_loop buf (i + CHUNK_SIZE) (chunks @ [take CHUNK_SIZE (drop i buf)])"
  by (simp add: chunk_loop.simps [of buf i] Let_def slice_chunk)

lemma chunk_loop_done: "\<not> i < length buf \<Longrightarrow> chunk_loop buf i chunks = chunks"
  by (simp add: chunk_loop.simps [of buf i])

lemma chunk_loop_append:
  "chunk_loop buf i chunks = chunks @ chunk_loop buf i []"
proof (induction "length buf - i" arbitrary: i chunks rule: less_induct)
  case less
  show ?case
  proof (cases "i < length buf")
    case True
    let ?c = "take CHUNK_SIZE (drop i buf)"
    have lt: "length buf - (i + CHUNK_SIZE) < length buf - i"
      using True by (simp add: CHUNK_SIZE_def)
    have "chunk_loop buf (i + CHUNK_SIZE) (chunks @ [?c]) = (chunks @ [?c]) @ chunk_loop buf (i + CHUNK_SIZE) []"
      by (rule less.hyps [OF lt])
    moreover have "chunk_loop buf (i + CHUNK_SIZE) [?c] = [?c] @ chunk_loop buf (i + CHUNK_SIZE) []"
      by (rule less.hyps [OF lt])
    ultimately show ?thesis
      by (simp add: chunk_loop_step [OF True])
  next
    case False
    then show ?thesis by (simp add: chunk_loop_done)
  qed
qed

lemma chunk_loop_Nil_step:
  "i < length buf \<Longrightarrow>
   chunk_loop buf i [] = take CHUNK_SIZE (drop i buf) # chunk_loop buf (i + CHUNK_SIZE) []"
  using chunk_loop_append [of buf "i + CHUNK_SIZE" "[take CHUNK_SIZE (drop i buf)]"]
  by (simp add: chunk_loop_step [of i buf "[]"])

lemma concat_chunk_loop_Nil: "concat (chunk_loop buf i []) = drop i buf"
proof (induction "length buf - i" arbitrary: i rule: less_induct)
  case less
  show ?case
  proof (cases "i < length buf")
    case True
    have lt: "length buf - (i + CHUNK_SIZE) < length buf - i"
      using True by (simp add: CHUNK_SIZE_def)
    have "concat (chunk_loop buf (i + CHUNK_SIZE) []) = drop (i + CHUNK_SIZE) buf"
      by (rule less.hyps [OF lt])
    moreover have "take CHUNK_SIZE (drop i buf) @ drop (i + CHUNK_SIZE) buf = drop i buf"
      by (metis add.commute append_take_drop_id drop_drop)
    ultimately show ?thesis
      by (simp add: chunk_loop_Nil_step [OF True])
  next
    case False
    then show ?thesis by (simp add: chunk_loop_done)
  qed
qed

lemma ceil_div_step:
  "i < (n::nat) \<Longrightarrow> Suc ((n - (i + 250) + 249) div 250) = (n - i + 249) div 250"
proof (cases "i + 250 \<le> n")
  case True
  then have "n - i + 249 = (n - (i + 250) + 249) + 250" by simp
  then have "(n - i + 249) div 250 = (n - (i + 250) + 249) div 250 + 1"
    by (simp only: div_add_self2)
  then show ?thesis by simp
next
  case False
  assume "i < n"
  with False have "n - (i + 250) = 0" "250 \<le> n - i + 249" "n - i + 249 < 500" by simp_all
  then show ?thesis by (simp add: div_nat_eqI)
qed

lemma length_chunk_loop_Nil:
  "length (chunk_loop buf i []) = (length buf - i + 249) div 250"
proof (induction "length buf - i" arbitrary: i rule: less_induct)
  case less
  show ?case
  proof (cases "i < length buf")
    case True
    have lt: "length buf - (i + CHUNK_SIZE) < length buf - i"
      using True by (simp add: CHUNK_SIZE_def)
    have "length (chunk_loop buf (i + CHUNK_SIZE) []) = (length buf - (i + CHUNK_SIZE) + 249) div 250"
      by (rule less.hyps [OF lt])
    moreover have "Suc ((length buf - (i + 250) + 249) div 250) = (length buf - i + 249) div 250"
      using True by (rule ceil_div_step)
    ultimately show ?thesis
      by (simp add: chunk_loop_Nil_step [OF True] CHUNK_SIZE_def)
  next
    case False
    then show ?thesis by (simp add: chunk_loop_done)
  qed
qed

lemma chunk_loop_Nil_bound:
  "c \<in> set (chunk_loop buf i []) \<Longrightarrow> length c \<le> 250"
proof (induction "length buf - i" arbitrary: i rule: less_induct)
  case less
  show ?case
  proof (cases "i < length buf")
    case True
    have lt: "length buf - (i + CHUNK_SIZE) < length buf - i"
      using True by (simp add: CHUNK_SIZE_def)
    from less.prems have "c = take CHUNK_SIZE (drop i buf) \<or> c \<in> set (chunk_loop buf (i + CHUNK_SIZE) [])"
      by (simp add: chunk_loop_Nil_step [OF True])
    then show ?thesis
    proof
      assume "c = take CHUNK_SIZE (drop i buf)"
      then show ?thesis by (simp add: CHUNK_SIZE_def)
    next
      assume "c \<in> set (chunk_loop buf (i + CHUNK_SIZE) [])"
      then show ?thesis by (rule less.hyps [OF lt])
    qed
  next
    case False
    with less.prems show ?thesis by (simp add: chunk_loop_done)
  qed
qed

lemma chunks_600:
  assumes "length buf = 600"
  shows "map length (chunk_loop buf 0 []) = [250, 250, 100]"
proof -
  have "chunk_loop buf 0 [] = take 250 buf # chunk_loop buf 250 []"
    using assms chunk_loop_Nil_step [of 0 buf] by (simp add: CHUNK_SIZE_def)
  also have "chunk_loop buf 250 [] = take 250 (drop 250 buf) # chunk_loop buf 500 []"
    using assms chunk_loop_Nil_step [of 250 buf] by (simp add: CHUNK_SIZE_def)
  also have "chunk_loop buf 500 [] = take 250 (drop 500 buf) # chunk_loop buf 750 []"
    using assms chunk_loop_Nil_step [of 500 buf] by (simp add: CHUNK_SIZE_def)
  also have "chunk_loop buf 750 [] = []"
    using assms by (simp add: chunk_loop_done)
  finally show ?thesis using assms by simp
qed

subsection \<open>Traces\<close>

lemma sequential_interleave: "sequential (interleave fs outs)"
  by (induction fs outs rule: interleave.induct) simp_all

lemma sent_interleave:
  "length outs \<le> length fs \<Longrightarrow> sent (interleave fs outs) = take (length outs) fs"
  by (induction fs outs rule: interleave.induct) simp_all

lemma interleave_snoc:
  "length pre < length fs \<Longrightarrow>
   interleave fs (pre @ [x]) = interleave fs pre @ [Sent (fs ! length pre), Replied x]"
proof (induction fs arbitrary: pre)
  case Nil
  then show ?case by simp
next
  case (Cons a fs)
  show ?case
  proof (cases pre)
    case Nil
    then show ?thesis by simp
  next
    case (Cons r rs)
    with Cons.prems Cons.IH [of rs] show ?thesis by simp
  qed
qed

lemma final_reply_snoc:
  "final_reply (es @ [e]) = (case e of Replied (Inr r) \<Rightarrow> Some r | _ \<Rightarrow> None)"
  by (simp add: final_reply_def)

lemma final_reply_interleave:
  assumes "length outs \<le> length fs" and "outs \<noteq> []"
  shows "final_reply (es @ interleave fs outs) = (case last outs of Inr r \<Rightarrow> Some r | Inl c \<Rightarrow> None)"
proof -
  from assms(2) obtain pre x where outs: "outs = pre @ [x]"
    by (cases outs rule: rev_cases) simp_all
  with assms(1) have "length pre < length fs" by simp
  then have "es @ interleave fs outs = (es @ interleave fs pre @ [Sent (fs ! length pre)]) @ [Replied x]"
    by (simp add: outs interleave_snoc)
  then have "final_reply (es @ interleave fs outs) = (case Replied x of Replied (Inr r) \<Rightarrow> Some r | _ \<Rightarrow> None)"
    by (simp only: final_reply_snoc)
  then show ?thesis by (simp add: outs split: sum.splits)
qed

subsection \<open>The run of signTransaction\<close>

lemma sign_frames_nth:
  "sign_frames chunks = map (\<lambda>j. sign_apdu (length chunks) (chunks ! j) j) [0..<length chunks]"
  by (simp add: sign_frames_def)

lemma signTransaction_run:
  assumes "fromString path = Some bipPath" and "serializePath bipPath = Inr sp"
  shows "\<exists>outs. snd (snd (signTransaction ex fromString path message t))
                  = snd t @ interleave (sign_frames (sp # chunk_loop (Buffer_from message) 0 [])) outs
           \<and> length outs \<le> Suc (length (chunk_loop (Buffer_from message) 0 []))
           \<and> outs \<noteq> []
           \<and> ((\<exists>rs. outs = map Inr rs \<and> length rs = Suc (length (chunk_loop (Buffer_from message) 0 []))
                     \<and> fst (signTransaction ex fromString path message t) = sign_result (Some (last rs)))
                \<or> (\<exists>c pre. outs = map Inr pre @ [Inl c]
                     \<and> fst (signTransaction ex fromString path message t) = Inl (TransportError c)))"
proof -
  let ?chunks = "sp # chunk_loop (Buffer_from message) 0 []"
  let ?n = "length ?chunks"
  let ?fs = "sign_frames ?chunks"
  have chunks: "chunk_loop (Buffer_from message) 0 [sp] = ?chunks"
    using chunk_loop_append [of "Buffer_from message" 0 "[sp]"] by simp
  have run: "signTransaction ex fromString path message t =
      (case foreach ?chunks (sign_callback ex ?n) (t, None) of
         (Inl e, s') \<Rightarrow> (Inl e, fst s')
       | (Inr rs, s') \<Rightarrow> (sign_result (snd s'), fst s'))"
    using assms by (simp add: signTransaction_def chunks)
  obtain y t2 where e: "exchange_all ex ?fs t = (y, t2)" by (cases "exchange_all ex ?fs t")
  from exchange_all_trace [of ex ?fs t] e obtain outs where
    o: "snd t2 = snd t @ interleave ?fs outs" "length outs \<le> length ?fs"
       "case y of Inr rs \<Rightarrow> outs = map Inr rs \<and> length rs = length ?fs
                | Inl err \<Rightarrow> (\<exists>c pre. err = TransportError c \<and> outs = map Inr pre @ [Inl c])"
    by auto
  have len: "length ?fs = ?n" by (simp add: sign_frames_def)
  have it: "case exchange_all ex ?fs t of
      (Inl e, t') \<Rightarrow> (\<exists>resp'. iterate (sign_callback ex ?n) 0 ?chunks [] (t, None) = (Inl e, (t', resp')))
    | (Inr rs, t') \<Rightarrow> iterate (sign_callback ex ?n) 0 ?chunks [] (t, None)
                       = (Inr ([] @ rs), (t', if rs = [] then None else Some (last rs)))"
    unfolding sign_frames_nth
    by (rule iterate_sign_exchange_all [where k = ?n]) simp_all
  show ?thesis
  proof (cases y)
    case (Inl err)
    with o obtain c pre where c: "err = TransportError c" "outs = map Inr pre @ [Inl c]" by auto
    from it e Inl obtain resp' where "foreach ?chunks (sign_callback ex ?n) (t, None) = (Inl err, (t2, resp'))"
      by (auto simp add: foreach_def)
    then have "signTransaction ex fromString path message t = (Inl (TransportError c), t2)"
      by (simp add: run c)
    with o c len show ?thesis
      by (intro exI [of _ outs]) auto
  next
    case (Inr rs)
    with o have rs: "outs = map Inr rs" "length rs = ?n" by (simp_all add: len)
    then have ne: "rs \<noteq> []" by auto
    from it e Inr ne have "foreach ?chunks (sign_callback ex ?n) (t, None) = (Inr rs, (t2, Some (last rs)))"
      by (simp add: foreach_def)
    then have "signTransaction ex fromString path message t = (sign_result (Some (last rs)), t2)"
      by (simp add: run)
    with o rs ne len show ?thesis
      by (intro exI [of _ outs]) auto
  qed
qed

lemma signTransaction_no_path:
  "fromString path = None \<Longrightarrow> signTransaction ex fromString path message t = (Inl PathError, t)"
  by (simp add: signTransaction_def)

lemma signTransaction_bad_path:
  "fromString path = Some bipPath \<Longrightarrow> serializePath bipPath = Inl e \<Longrightarrow>
   signTransaction ex fromString path message t = (Inl e, t)"
  by (simp add: signTransaction_def)

lemma decode_returnCode_be16:
  assumes "2 \<le> length r"
  shows "decode_returnCode r = Num (be16 r)"
proof -
  have "slice_buffer r (- 2) (int (length r)) = drop (length r - 2) r"
    using assms by (simp add: slice_buffer_def adjust_index_def Let_def nat_diff_distrib')
  moreover have "Suc (length r - 2) = length r - 1"
    using assms by simp
  ultimately show ?thesis
    using assms by (simp add: decode_returnCode_def Let_def index_num_def be16_def)
qed

lemma decode_returnCode_short:
  "length r < 2 \<Longrightarrow> decode_returnCode r = NaN"
  by (cases r) (simp_all add: decode_returnCode_def slice_buffer_def adjust_index_def Let_def index_num_def)

lemma serializePath_Inl: "serializePath p = Inl e \<Longrightarrow> e = RangeError \<and> 127 < length p"
  using serializePath_ok [of p] serializePath_fail [of p] by (cases "length p \<le> 127") simp_all

lemma length_serializePath: "serializePath p = Inr sp \<Longrightarrow> length sp = 1 + 4 * length p"
  using serializePath_ok [of p] serializePath_fail [of p] by (cases "length p \<le> 127") auto

lemma chunks_Cons: "chunk_loop buf 0 [sp] = sp # chunk_loop buf 0 []"
  using chunk_loop_append [of buf 0 "[sp]"] by simp

lemma length_Buffer_from [simp]: "length (Buffer_from message) = length message"
  by (simp add: Buffer_from_def)

lemma payload_sign_apdu [simp]: "payload (sign_apdu n c j) = c"
  by (simp add: payload_def sign_apdu_def)

lemma length_sign_frames [simp]: "length (sign_frames chunks) = length chunks"
  by (simp add: sign_frames_def)

lemma payload_sign_frames: "map payload (sign_frames chunks) = chunks"
  by (simp add: sign_frames_def comp_def map_nth)

lemma sign_frames_status:
  "a \<in> set (sign_frames chunks) \<Longrightarrow> apdu_statusList a = Some [SW_OK, SW_CANCEL]"
  by (auto simp add: sign_frames_def sign_apdu_def)

lemma sign_frames_single: "sign_frames [c] = [sign_apdu 1 c 0]"
  by (simp add: sign_frames_def)

subsection \<open>Runs from an empty trace\<close>

lemma sign_trace_no_path:
  "fromString path = None \<Longrightarrow> trace (signTransaction ex fromString path message t) = snd t
     \<and> outcome (signTransaction ex fromString path message t) = Inl PathError"
  by (simp add: signTransaction_no_path trace_def outcome_def)

lemma sign_trace_bad_path:
  "fromString path = Some bipPath \<Longrightarrow> serializePath bipPath = Inl e \<Longrightarrow>
   trace (signTransaction ex fromString path message t) = snd t
     \<and> outcome (signTransaction ex fromString path message t) = Inl RangeError"
  using serializePath_Inl [of bipPath e]
  by (simp add: signTransaction_bad_path trace_def outcome_def)

lemma sign_trace:
  assumes "fromString path = Some bipPath" and "serializePath bipPath = Inr sp"
  shows "\<exists>outs. trace (signTransaction ex fromString path message (d, []))
                  = interleave (sign_frames (chunk_loop (Buffer_from message) 0 [sp])) outs
           \<and> length outs \<le> length (chunk_loop (Buffer_from message) 0 [sp])
           \<and> outs \<noteq> []
           \<and> ((\<exists>rs. outs = map Inr rs \<and> rs \<noteq> []
                     \<and> length rs = length (chunk_loop (Buffer_from message) 0 [sp])
                     \<and> outcome (signTransaction ex fromString path message (d, [])) = sign_result (Some (last rs)))
                \<or> (\<exists>c pre. outs = map Inr pre @ [Inl c]
                     \<and> outcome (signTransaction ex fromString path message (d, [])) = Inl (TransportError c)))"
  using signTransaction_run [where fromString = fromString and path = path and ex = ex and message = message and t = "(d, [])", OF assms]
  by (simp add: trace_def outcome_def chunks_Cons) fastforce

lemma sign_sent:
  assumes "fromString path = Some bipPath" and "serializePath bipPath = Inr sp"
  shows "\<exists>k. 0 < k \<and> k \<le> length (chunk_loop (Buffer_from message) 0 [sp])
           \<and> sent (trace (signTransaction ex fromString path message (d, [])))
               = take k (sign_frames (chunk_loop (Buffer_from message) 0 [sp]))
           \<and> ((\<forall>c. outcome (signTransaction ex fromString path message (d, [])) \<noteq> Inl (TransportError c))
                  \<longrightarrow> k = length (chunk_loop (Buffer_from message) 0 [sp]))"
proof -
  let ?chunks = "chunk_loop (Buffer_from message) 0 [sp]"
  from sign_trace [where fromString = fromString and path = path and ex = ex and message = message and d = d, OF assms] obtain outs where
    o: "trace (signTransaction ex fromString path message (d, [])) = interleave (sign_frames ?chunks) outs"
       "length outs \<le> length ?chunks" "outs \<noteq> []"
       "(\<exists>rs. outs = map Inr rs \<and> rs \<noteq> [] \<and> length rs = length ?chunks
              \<and> outcome (signTransaction ex fromString path message (d, [])) = sign_result (Some (last rs)))
        \<or> (\<exists>c pre. outs = map Inr pre @ [Inl c]
              \<and> outcome (signTransaction ex fromString path message (d, [])) = Inl (TransportError c))"
    by blast
  have "sent (interleave (sign_frames ?chunks) outs) = take (length outs) (sign_frames ?chunks)"
    using o(2) by (simp add: sent_interleave)
  moreover have "(\<forall>c. outcome (signTransaction ex fromString path message (d, [])) \<noteq> Inl (TransportError c))
                  \<longrightarrow> length outs = length ?chunks"
    using o(4) by auto
  ultimately show ?thesis
    using o(1,2,3) by (intro exI [of _ "length outs"]) simp
qed

lemma sign_final_reply:
  assumes "fromString path = Some bipPath" and "serializePath bipPath = Inr sp"
  shows "(final_reply (trace (signTransaction ex fromString path message (d, []))) = None
            \<and> (\<exists>c. outcome (signTransaction ex fromString path message (d, [])) = Inl (TransportError c)))
       \<or> (\<exists>r. final_reply (trace (signTransaction ex fromString path message (d, []))) = Some r
            \<and> outcome (signTransaction ex fromString path message (d, [])) = sign_result (Some r)
            \<and> sent (trace (signTransaction ex fromString path message (d, [])))
                = sign_frames (chunk_loop (Buffer_from message) 0 [sp]))"
proof -
  let ?chunks = "chunk_loop (Buffer_from message) 0 [sp]"
  let ?run = "signTransaction ex fromString path message (d, [])"
  from sign_trace [where fromString = fromString and path = path and ex = ex and message = message and d = d, OF assms] obtain outs where
    o: "trace ?run = interleave (sign_frames ?chunks) outs"
       "length outs \<le> length ?chunks" "outs \<noteq> []"
       "(\<exists>rs. outs = map Inr rs \<and> rs \<noteq> [] \<and> length rs = length ?chunks
              \<and> outcome ?run = sign_result (Some (last rs)))
        \<or> (\<exists>c pre. outs = map Inr pre @ [Inl c] \<and> outcome ?run = Inl (TransportError c))"
    by blast
  have fin: "final_reply (trace ?run) = (case last outs of Inr r \<Rightarrow> Some r | Inl c \<Rightarrow> None)"
    using final_reply_interleave [of outs "sign_frames ?chunks" "[]"] o(1,2,3) by simp
  from o(4) show ?thesis
  proof
    assume "\<exists>rs. outs = map Inr rs \<and> rs \<noteq> [] \<and> length rs = length ?chunks
              \<and> outcome ?run = sign_result (Some (last rs))"
    then obtain rs where rs: "outs = map Inr rs" "rs \<noteq> []" "length rs = length ?chunks"
      "outcome ?run = sign_result (Some (last rs))" by blast
    have "sent (trace ?run) = sign_frames ?chunks"
      using o(1) rs(1,3) by (simp add: sent_interleave)
    moreover have "final_reply (trace ?run) = Some (last rs)"
      using fin rs(1,2) by (simp add: last_map)
    ultimately show ?thesis using rs(4) by simp
  next
    assume "\<exists>c pre. outs = map Inr pre @ [Inl c] \<and> outcome ?run = Inl (TransportError c)"
    then obtain c pre where "outs = map Inr pre @ [Inl c]" "outcome ?run = Inl (TransportError c)"
      by blast
    with fin show ?thesis by simp
  qed
qed

subsection \<open>The result of signTransaction and of getAddress\<close>

lemma sign_result_refused:
  "sign_result (Some r) = Inl UserRefusedOnDevice \<longleftrightarrow> 2 \<le> length r \<and> be16 r = SW_CANCEL"
proof (cases "2 \<le> length r")
  case True
  then show ?thesis
    by (simp add: sign_result_def Let_def decode_returnCode_be16)
next
  case False
  then have "decode_returnCode r = NaN" by (simp add: decode_returnCode_short)
  with False show ?thesis by (simp add: sign_result_def Let_def)
qed

lemma sign_result_returned:
  "2 \<le> length r \<Longrightarrow> be16 r \<noteq> SW_CANCEL \<Longrightarrow>
   \<exists>res. sign_result (Some r) = Inr res \<and> returnCode res = Num (be16 r)"
  by (simp add: sign_result_def Let_def decode_returnCode_be16)

lemma getAddress_no_path:
  "fromString path = None \<Longrightarrow> getAddress ex fromString path display t = (Inl PathError, t)"
  by (simp add: getAddress_def)

lemma getAddress_bad_path:
  "fromString path = Some bipPath \<Longrightarrow> serializePath bipPath = Inl e \<Longrightarrow>
   getAddress ex fromString path display t = (Inl e, t)"
  by (simp add: getAddress_def)

lemma getAddress_run:
  assumes "fromString path = Some bipPath" and "serializePath bipPath = Inr sp"
  shows "\<exists>x. trace (getAddress ex fromString path display t)
               = snd t @ [Sent (address_apdu display sp), Replied x]
          \<and> outcome (getAddress ex fromString path display t)
               = (case x of
                    Inl c \<Rightarrow> Inl (TransportError c)
                  | Inr response \<Rightarrow>
                      if decode_returnCode response = Num SW_CANCEL then Inl UserRefusedAddress
                      else Inr \<lparr>returnCode = decode_returnCode response,
                                publicKey = toString_hex response, address = ''''\<rparr>)"
proof -
  let ?a = "address_apdu display sp"
  obtain x d' where x: "ex (fst t) ?a = (x, d')" by (cases "ex (fst t) ?a")
  have "getAddress ex fromString path display t =
          (case send ex ?a t of
             (Inl e, t') \<Rightarrow> (Inl e, t')
           | (Inr response, t') \<Rightarrow>
               (if decode_returnCode response = Num SW_CANCEL then (Inl UserRefusedAddress, t')
                else (Inr \<lparr>returnCode = decode_returnCode response,
                           publicKey = toString_hex response, address = ''''\<rparr>, t')))"
    using assms by (simp add: getAddress_def Let_def address_apdu_def split: prod.splits sum.splits)
  with x show ?thesis
    by (intro exI [of _ x])
      (simp add: send_def send_call_def send_settle_def trace_def outcome_def split: sum.splits)
qed

subsection \<open>A device that always gives the same reply\<close>

lemma send_reply_with:
  "send (reply_with r) a t = (Inr r, (fst t, snd t @ [Sent a, Replied (Inr r)]))"
  by (cases t) (simp add: send_def send_call_def send_settle_def reply_with_def)

lemma exchange_all_reply_with:
  "exchange_all (reply_with r) fs t
     = (Inr (replicate (length fs) r), (fst t, snd t @ interleave fs (replicate (length fs) (Inr r))))"
proof (induction fs arbitrary: t)
  case Nil
  show ?case by (cases t) simp
next
  case (Cons a fs)
  then show ?case by (simp add: send_reply_with)
qed

lemma signTransaction_reply_with:
  assumes "fromString path = Some bipPath" and "serializePath bipPath = Inr sp"
  shows "signTransaction (reply_with r) fromString path message t =
           (sign_result (Some r),
            (fst t, snd t @ interleave (sign_frames (chunk_loop (Buffer_from message) 0 [sp]))
                       (replicate (length (chunk_loop (Buffer_from message) 0 [sp])) (Inr r))))"
proof -
  let ?chunks = "chunk_loop (Buffer_from message) 0 [sp]"
  let ?n = "length ?chunks"
  have ne: "0 < ?n" by (simp add: chunks_Cons)
  have "case exchange_all (reply_with r) (sign_frames ?chunks) t of
      (Inl e, t') \<Rightarrow> (\<exists>resp'. iterate (sign_callback (reply_with r) ?n) 0 ?chunks [] (t, None) = (Inl e, (t', resp')))
    | (Inr rs, t') \<Rightarrow> iterate (sign_callback (reply_with r) ?n) 0 ?chunks [] (t, None)
                       = (Inr ([] @ rs), (t', if rs = [] then None else Some (last rs)))"
    unfolding sign_frames_nth
    by (rule iterate_sign_exchange_all [where k = ?n]) simp_all
  then have "foreach ?chunks (sign_callback (reply_with r) ?n) (t, None)
      = (Inr (replicate ?n r),
         ((fst t, snd t @ interleave (sign_frames ?chunks) (replicate ?n (Inr r))), Some r))"
    using ne by (simp add: exchange_all_reply_with foreach_def)
  then show ?thesis
    using assms by (simp add: signTransaction_def Let_def)
qed

lemma sign_reply_with_sent:
  assumes "fromString path = Some bipPath" and "serializePath bipPath = Inr sp"
  shows "sent (trace (signTransaction (reply_with r) fromString path message ((), [])))
           = sign_frames (chunk_loop (Buffer_from message) 0 [sp])"
    and "outcome (signTransaction (reply_with r) fromString path message ((), [])) = sign_result (Some r)"
  by (simp_all add: signTransaction_reply_with [where fromString = fromString and path = path, OF assms]
      trace_def outcome_def sent_interleave)

lemma getAddress_reply_with:
  assumes "fromString path = Some bipPath" and "serializePath bipPath = Inr sp"
  shows "getAddress (reply_with r) fromString path display t =
           (if decode_returnCode r = Num SW_CANCEL then Inl UserRefusedAddress
            else Inr \<lparr>returnCode = decode_returnCode r, publicKey = toString_hex r, address = ''''\<rparr>,
            (fst t, snd t @ [Sent (address_apdu display sp), Replied (Inr r)]))"
  using assms by (simp add: getAddress_def Let_def address_apdu_def send_reply_with)

lemma getAppConfiguration_trace:
  "\<exists>x. trace (getAppConfiguration ex (d, []))
          = [Sent \<lparr>apdu_cla = CLA, apdu_ins = INS_GET_VERSION, apdu_p1 = 0, apdu_p2 = 0,
                   apdu_data = None, apdu_statusList = None\<rparr>, Replied x]"
  by (cases "ex d \<lparr>apdu_cla = CLA, apdu_ins = INS_GET_VERSION, apdu_p1 = 0, apdu_p2 = 0,
                   apdu_data = None, apdu_statusList = None\<rparr>")
     (auto simp add: getAppConfiguration_def send_def send_call_def send_settle_def trace_def
        split: sum.splits)

lemma path5: "serializePath [44, 3030, 0, 0, 0]
    = Inr [5, 0, 0, 0, 44, 0, 0, 0x0b, 0xd6, 0, 0, 0, 0, 0, 0, 0, 0, 0, 0, 0, 0]"
  by code_simp

subsection \<open>Concrete values\<close>

lemma parsed_as_Some: "parsed_as p s = Some p"
  by (simp add: parsed_as_def)

lemma hex_9000: "toString_hex [0x90, 0x00] = ''9000''"
  by code_simp

lemma hex_key: "toString_hex (replicate 32 0xAB) = ''abababababababababababababababababababababababababababababababab''"
  by code_simp

lemma toString_hex_append: "toString_hex (a @ b) = toString_hex a @ toString_hex b"
  by (simp add: toString_hex_def)

lemma be16_snoc2: "be16 (pre @ [hi, lo]) = unat hi * 256 + unat lo"
  by (simp add: be16_def nth_append)

lemma decode_9000: "decode_returnCode (pre @ [0x90, 0x00]) = Num 0x9000"
  using be16_snoc2 [of pre "0x90" "0x00"] by (simp add: decode_returnCode_be16)

lemma sign_result_not_transport: "sign_result (Some r) \<noteq> Inl (TransportError c)"
  by (simp add: sign_result_def Let_def)

subsection \<open>Refusal and the status word\<close>

lemma getAddress_refusal:
  "(outcome (getAddress ex fromString path display (d, [])) = Inl UserRefusedAddress
      \<longleftrightarrow> (\<exists>r. final_reply (trace (getAddress ex fromString path display (d, []))) = Some r
                  \<and> 2 \<le> length r \<and> be16 r = SW_CANCEL))
   \<and> (\<forall>r. final_reply (trace (getAddress ex fromString path display (d, []))) = Some r
            \<and> 2 \<le> length r \<and> be16 r \<noteq> SW_CANCEL
          \<longrightarrow> (\<exists>res. outcome (getAddress ex fromString path display (d, [])) = Inr res
                  \<and> returnCode res = Num (be16 r)))"
proof (cases "fromString path")
  case None
  then show ?thesis
    by (simp add: getAddress_no_path outcome_def trace_def final_reply_def)
next
  case (Some bipPath)
  show ?thesis
  proof (cases "serializePath bipPath")
    case (Inl e)
    with Some serializePath_Inl [of bipPath e] show ?thesis
      by (simp add: getAddress_bad_path outcome_def trace_def final_reply_def)
  next
    case (Inr sp)
    from getAddress_run [where fromString = fromString and path = path and ex = ex
        and display = display and t = "(d, [])", OF Some Inr]
    obtain x where x: "trace (getAddress ex fromString path display (d, []))
               = [Sent (address_apdu display sp), Replied x]"
          "outcome (getAddress ex fromString path display (d, []))
               = (case x of
                    Inl c \<Rightarrow> Inl (TransportError c)
                  | Inr response \<Rightarrow>
                      if decode_returnCode response = Num SW_CANCEL then Inl UserRefusedAddress
                      else Inr \<lparr>returnCode = decode_returnCode response,
                                publicKey = toString_hex response, address = ''''\<rparr>)"
      by auto
    show ?thesis
    proof (cases x)
      case (Inl c)
      with x show ?thesis by (simp add: final_reply_def)
    next
      case r: (Inr response)
      show ?thesis
      proof (cases "2 \<le> length response")
        case True
        with x r show ?thesis
          by (simp add: final_reply_def decode_returnCode_be16)
      next
        case False
        then have "decode_returnCode response = NaN" by (simp add: decode_returnCode_short)
        with x r False show ?thesis
          by (simp add: final_reply_def)
      qed
    qed
  qed
qed

lemma signTransaction_refusal:
  "(outcome (signTransaction ex fromString path message (d, [])) = Inl UserRefusedOnDevice
      \<longleftrightarrow> (\<exists>r. final_reply (trace (signTransaction ex fromString path message (d, []))) = Some r
                  \<and> 2 \<le> length r \<and> be16 r = SW_CANCEL))
   \<and> (\<forall>r. final_reply (trace (signTransaction ex fromString path message (d, []))) = Some r
            \<and> 2 \<le> length r \<and> be16 r \<noteq> SW_CANCEL
          \<longrightarrow> (\<exists>res. outcome (signTransaction ex fromString path message (d, [])) = Inr res
                  \<and> returnCode res = Num (be16 r)))
   \<and> (\<forall>r. final_reply (trace (signTransaction ex fromString path message (d, []))) = Some r
          \<longrightarrow> length (sent (trace (signTransaction ex fromString path message (d, []))))
                = 1 + (length message + 249) div 250)"
proof (cases "fromString path")
  case None
  from sign_trace_no_path [where fromString = fromString and path = path and ex = ex
      and message = message and t = "(d, [])", OF None]
  show ?thesis
    by (simp add: final_reply_def)
next
  case (Some bipPath)
  show ?thesis
  proof (cases "serializePath bipPath")
    case (Inl e)
    from sign_trace_bad_path [where fromString = fromString and path = path and ex = ex
        and message = message and t = "(d, [])", OF Some Inl]
    show ?thesis by (simp add: final_reply_def)
  next
    case (Inr sp)
    let ?run = "signTransaction ex fromString path message (d, [])"
    from sign_final_reply [where fromString = fromString and path = path and ex = ex
        and message = message and d = d, OF Some Inr]
    consider c where "final_reply (trace ?run) = None" "outcome ?run = Inl (TransportError c)"
      | r where "final_reply (trace ?run) = Some r" "outcome ?run = sign_result (Some r)"
          "sent (trace ?run) = sign_frames (chunk_loop (Buffer_from message) 0 [sp])"
      by blast
    then show ?thesis
    proof cases
      case 1
      then show ?thesis by simp
    next
      case 2
      have "length (sent (trace ?run)) = 1 + (length message + 249) div 250"
        by (simp add: 2(3) chunks_Cons length_chunk_loop_Nil)
      with 2(1,2) sign_result_returned [of r] show ?thesis
        by (simp add: sign_result_refused)
    qed
  qed
qed

subsection \<open>Facts for the concrete runs and for the claims\<close>

lemma sign_reply_with_final:
  assumes "fromString path = Some bipPath" and "serializePath bipPath = Inr sp"
  shows "final_reply (trace (signTransaction (reply_with r) fromString path message ((), []))) = Some r"
proof -
  let ?chunks = "chunk_loop (Buffer_from message) 0 [sp]"
  have "0 < length ?chunks" by (simp add: chunks_Cons)
  then have "final_reply (interleave (sign_frames ?chunks) (replicate (length ?chunks) (Inr r))) = Some r"
    using final_reply_interleave [of "replicate (length ?chunks) (Inr r)" "sign_frames ?chunks" "[]"]
    by simp
  then show ?thesis
    using \<open>0 < length ?chunks\<close>
    by (simp add: signTransaction_reply_with [where fromString = fromString and path = path, OF assms]
        trace_def)
qed

lemma be16_6986: "be16 [0x69, 0x86] = SW_CANCEL"
  by (simp add: be16_def SW_CANCEL_def)

lemma length_600: "length (replicate 600 CHR ''a'') = 600"
  by simp

lemma chunks_600_path5:
  "map length (chunk_loop (Buffer_from (replicate 600 CHR ''a'')) 0
      [[5, 0, 0, 0, 44, 0, 0, 0x0b, 0xd6, 0, 0, 0, 0, 0, 0, 0, 0, 0, 0, 0, 0]])
     = [21, 250, 250, 100]"
  using chunks_600 [of "Buffer_from (replicate 600 CHR ''a'')"] by (simp add: chunks_Cons)

lemma chunks_empty_message: "chunk_loop (Buffer_from []) 0 [sp] = [sp]"
  by (simp add: chunk_loop_done Buffer_from_def)

lemma path63:
  "serializePath (replicate 63 0) = Inr (63 # concat (map be32 (replicate 63 0)))"
  using serializePath_ok [of "replicate 63 0"] by simp

lemma version_apdu_no_list:
  "\<not> passes_status \<lparr>apdu_cla = CLA, apdu_ins = INS_GET_VERSION, apdu_p1 = 0, apdu_p2 = 0,
                     apdu_data = None, apdu_statusList = None\<rparr> sw"
  by (simp add: passes_status_def)

lemma passes_status_both:
  "apdu_statusList a = Some [SW_OK, SW_CANCEL] \<Longrightarrow> passes_status a SW_OK \<and> passes_status a SW_CANCEL"
  by (simp add: passes_status_def)

lemma getAddress_sent_status:
  "a \<in> set (sent (trace (getAddress ex fromString path display (d, [])))) \<Longrightarrow>
   apdu_statusList a = Some [SW_OK, SW_CANCEL]"
proof (cases "fromString path")
  case None
  assume "a \<in> set (sent (trace (getAddress ex fromString path display (d, []))))"
  with None show ?thesis by (simp add: getAddress_no_path trace_def)
next
  case (Some bipPath)
  assume a: "a \<in> set (sent (trace (getAddress ex fromString path display (d, []))))"
  show ?thesis
  proof (cases "serializePath bipPath")
    case (Inl e)
    with a Some show ?thesis by (simp add: getAddress_bad_path trace_def)
  next
    case (Inr sp)
    from getAddress_run [where fromString = fromString and path = path and ex = ex
        and display = display and t = "(d, [])", OF Some Inr]
    obtain x where "trace (getAddress ex fromString path display (d, []))
               = [Sent (address_apdu display sp), Replied x]"
      by auto
    with a show ?thesis by (simp add: address_apdu_def)
  qed
qed

lemma signTransaction_sent_status:
  "a \<in> set (sent (trace (signTransaction ex fromString path message (d, [])))) \<Longrightarrow>
   apdu_statusList a = Some [SW_OK, SW_CANCEL]"
proof (cases "fromString path")
  case None
  assume a: "a \<in> set (sent (trace (signTransaction ex fromString path message (d, []))))"
  from sign_trace_no_path [where fromString = fromString and path = path and ex = ex
      and message = message and t = "(d, [])", OF None] a
  show ?thesis by simp
next
  case (Some bipPath)
  assume a: "a \<in> set (sent (trace (signTransaction ex fromString path message (d, []))))"
  show ?thesis
  proof (cases "serializePath bipPath")
    case (Inl e)
    from sign_trace_bad_path [where fromString = fromString and path = path and ex = ex
        and message = message and t = "(d, [])", OF Some Inl] a
    show ?thesis by simp
  next
    case (Inr sp)
    from sign_sent [where fromString = fromString and path = path and ex = ex
        and message = message and d = d, OF Some Inr]
    obtain k where "sent (trace (signTransaction ex fromString path message (d, [])))
        = take k (sign_frames (chunk_loop (Buffer_from message) 0 [sp]))"
      by blast
    with a have "a \<in> set (sign_frames (chunk_loop (Buffer_from message) 0 [sp]))"
      by (auto dest: in_set_takeD)
    then show ?thesis by (rule sign_frames_status)
  qed
qed

lemma concat_chunks: "concat (chunk_loop buf 0 [sp]) = sp @ buf"
  by (simp add: chunks_Cons concat_chunk_loop_Nil)

subsection \<open>Claims about the path encoding\<close>

text \<open>
  C4, as the specification states it, fails on the code: the length of the path is
  written with \<^verbatim>\<open>writeInt8\<close>, which takes a signed byte, so a path of 128 segments,
  well within 255, is refused with a range error.
\<close>

theorem serializePath_128_counterexample:
  "length (replicate 128 (0 :: u32)) \<le> 255
     \<and> serializePath (replicate 128 (0 :: u32)) = Inl RangeError"
  by (simp add: serializePath_def writeInt8_def)

text \<open>
  C4, amended: for every path of length \<open>L\<close> with \<open>0 \<le> L \<le> 127\<close> the encoding succeeds,
  its output has length \<open>1 + 4L\<close>, its first byte is \<open>L\<close>, and reading the big-endian
  4-byte groups after the first byte gives back the segments; the encoding fails, with a
  range error, if and only if \<open>L\<close> exceeds 127.
\<close>

theorem serializePath_encoding:
  "(length path \<le> 127 \<longrightarrow>
      (\<exists>buf. serializePath path = Inr buf \<and> length buf = 1 + 4 * length path
         \<and> unat (buf ! 0) = length path \<and> decode_segments buf = path))
   \<and> ((\<exists>e. serializePath path = Inl e) \<longleftrightarrow> 127 < length path)
   \<and> (127 < length path \<longrightarrow> serializePath path = Inl RangeError)"
proof (cases "length path \<le> 127")
  case True
  then have "serializePath path = Inr (word_of_nat (length path) # concat (map be32 path))"
    by (rule serializePath_ok)
  with True show ?thesis
    by (simp add: decode_segments_encoded unat_length_byte)
next
  case False
  then have "serializePath path = Inl RangeError"
    by (simp add: serializePath_fail)
  with False show ?thesis by simp
qed

theorem serializePath_encoding_witness:
  "length [44, 3030, 0, 0, 0 :: u32] \<le> 127
     \<and> (\<exists>buf. serializePath [44, 3030, 0, 0, 0] = Inr buf \<and> length buf = 21
           \<and> unat (buf ! 0) = 5 \<and> decode_segments buf = [44, 3030, 0, 0, 0])"
  using serializePath_encoding [of "[44, 3030, 0, 0, 0]"] by (auto simp add: eval_nat_numeral)

subsection \<open>Claims about getAddress\<close>

text \<open>
  C10: whenever \<^verbatim>\<open>getAddress\<close> returns a result, its \<^verbatim>\<open>address\<close> field is the empty
  string, whatever the path, the display flag and the reply of the device.
\<close>

theorem getAddress_address_empty:
  "outcome (getAddress ex fromString path display t) = Inr res \<Longrightarrow> address res = ''''"
  by (auto simp add: getAddress_def outcome_def Let_def
      split: option.splits sum.splits prod.splits if_splits)

theorem getAddress_address_empty_witness:
  "outcome (getAddress (reply_with [0x90, 0x00]) (parsed_as [44, 3030, 0, 0, 0]) ''44/3030/0/0/0''
     (Some True) ((), [])) = Inr \<lparr>returnCode = Num 0x9000, publicKey = ''9000'', address = ''''\<rparr>
   \<and> address \<lparr>returnCode = Num 0x9000, publicKey = ''9000'', address = ''''\<rparr> = ''''"
proof -
  have h: "outcome (getAddress (reply_with [0x90, 0x00]) (parsed_as [44, 3030, 0, 0, 0]) ''44/3030/0/0/0''
     (Some True) ((), [])) = Inr \<lparr>returnCode = Num 0x9000, publicKey = ''9000'', address = ''''\<rparr>"
    using decode_9000 [of "[]"]
    by (simp add: getAddress_reply_with [where fromString = "parsed_as [44, 3030, 0, 0, 0]"
          and path = "''44/3030/0/0/0''", OF parsed_as_Some path5]
        outcome_def hex_9000 SW_CANCEL_def)
  from getAddress_address_empty [OF h] h show ?thesis by simp
qed

text \<open>
  C1 does not hold of the code: \<^verbatim>\<open>publicKey\<close> is the hexadecimal form of the whole
  response, status word included, where \<^verbatim>\<open>signTransaction\<close> cuts the two status bytes
  off its signature. For the reply of 32 bytes \<^verbatim>\<open>0xAB\<close> followed by \<^verbatim>\<open>0x90 0x00\<close> the
  result carries the return code \<^verbatim>\<open>0x9000\<close> and a key of 34 bytes, which ends with the
  status word; the 32 bytes alone are the second string.
\<close>

theorem getAddress_publicKey_keeps_status_word:
  "outcome (getAddress (reply_with (replicate 32 0xAB @ [0x90, 0x00])) (parsed_as [44, 3030, 0, 0, 0])
      ''44/3030/0/0/0'' (Some False) ((), []))
     = Inr \<lparr>returnCode = Num 0x9000,
             publicKey = ''abababababababababababababababababababababababababababababababab9000'',
             address = ''''\<rparr>
   \<and> toString_hex (replicate 32 0xAB)
       = ''abababababababababababababababababababababababababababababababab''"
  using decode_9000 [of "replicate 32 0xAB"]
  by (simp add: getAddress_reply_with [where fromString = "parsed_as [44, 3030, 0, 0, 0]"
          and path = "''44/3030/0/0/0''", OF parsed_as_Some path5]
        outcome_def toString_hex_append hex_9000 hex_key SW_CANCEL_def)

subsection \<open>Claims about refusal\<close>

text \<open>
  C9: \<^verbatim>\<open>getAddress\<close> throws \<^verbatim>\<open>UserRefusedAddress\<close> exactly when its reply has a status
  word and that word, the big-endian value of the last two bytes, is \<^verbatim>\<open>0x6986\<close>, and
  \<^verbatim>\<open>signTransaction\<close> throws \<^verbatim>\<open>UserRefusedOnDevice\<close> exactly when the reply to its last
  frame does; with any other status word each returns a result whose return code is that
  word. A final reply of \<^verbatim>\<open>signTransaction\<close> is the reply to the last chunk: all the
  chunks have been sent by then.
\<close>

theorem refusal_exactly_on_status_6986:
  "((outcome (getAddress ex fromString path display (d, [])) = Inl UserRefusedAddress
      \<longleftrightarrow> (\<exists>r. final_reply (trace (getAddress ex fromString path display (d, []))) = Some r
                  \<and> 2 \<le> length r \<and> be16 r = SW_CANCEL))
   \<and> (\<forall>r. final_reply (trace (getAddress ex fromString path display (d, []))) = Some r
            \<and> 2 \<le> length r \<and> be16 r \<noteq> SW_CANCEL
          \<longrightarrow> (\<exists>res. outcome (getAddress ex fromString path display (d, [])) = Inr res
                  \<and> returnCode res = Num (be16 r))))
   \<and> ((outcome (signTransaction ex fromString path message (d, [])) = Inl UserRefusedOnDevice
      \<longleftrightarrow> (\<exists>r. final_reply (trace (signTransaction ex fromString path message (d, []))) = Some r
                  \<and> 2 \<le> length r \<and> be16 r = SW_CANCEL))
   \<and> (\<forall>r. final_reply (trace (signTransaction ex fromString path message (d, []))) = Some r
            \<and> 2 \<le> length r \<and> be16 r \<noteq> SW_CANCEL
          \<longrightarrow> (\<exists>res. outcome (signTransaction ex fromString path message (d, [])) = Inr res
                  \<and> returnCode res = Num (be16 r)))
   \<and> (\<forall>r. final_reply (trace (signTransaction ex fromString path message (d, []))) = Some r
          \<longrightarrow> length (sent (trace (signTransaction ex fromString path message (d, []))))
                = 1 + (length message + 249) div 250))"
  using getAddress_refusal [of ex fromString path display d]
    signTransaction_refusal [of ex fromString path message d]
  by blast

theorem refusal_exactly_on_status_6986_witness:
  "final_reply (trace (getAddress (reply_with [0x69, 0x86]) (parsed_as [44, 3030, 0, 0, 0])
       ''44/3030/0/0/0'' (Some False) ((), []))) = Some [0x69, 0x86]
   \<and> 2 \<le> length [0x69, 0x86 :: byte] \<and> be16 [0x69, 0x86] = SW_CANCEL
   \<and> outcome (getAddress (reply_with [0x69, 0x86]) (parsed_as [44, 3030, 0, 0, 0])
       ''44/3030/0/0/0'' (Some False) ((), [])) = Inl UserRefusedAddress
   \<and> final_reply (trace (signTransaction (reply_with [0x69, 0x86]) (parsed_as [44, 3030, 0, 0, 0])
       ''44/3030/0/0/0'' ''abc'' ((), []))) = Some [0x69, 0x86]
   \<and> outcome (signTransaction (reply_with [0x69, 0x86]) (parsed_as [44, 3030, 0, 0, 0])
       ''44/3030/0/0/0'' ''abc'' ((), [])) = Inl UserRefusedOnDevice
   \<and> length (sent (trace (signTransaction (reply_with [0x69, 0x86]) (parsed_as [44, 3030, 0, 0, 0])
       ''44/3030/0/0/0'' ''abc'' ((), [])))) = 2"
proof -
  have a: "final_reply (trace (getAddress (reply_with [0x69, 0x86]) (parsed_as [44, 3030, 0, 0, 0])
       ''44/3030/0/0/0'' (Some False) ((), []))) = Some [0x69, 0x86]"
    by (simp add: getAddress_reply_with [where fromString = "parsed_as [44, 3030, 0, 0, 0]"
          and path = "''44/3030/0/0/0''", OF parsed_as_Some path5] trace_def final_reply_def)
  have b: "final_reply (trace (signTransaction (reply_with [0x69, 0x86]) (parsed_as [44, 3030, 0, 0, 0])
       ''44/3030/0/0/0'' ''abc'' ((), []))) = Some [0x69, 0x86]"
    by (rule sign_reply_with_final [where fromString = "parsed_as [44, 3030, 0, 0, 0]"
          and path = "''44/3030/0/0/0''", OF parsed_as_Some path5])
  show ?thesis
    using refusal_exactly_on_status_6986 [of "reply_with [0x69, 0x86]" "parsed_as [44, 3030, 0, 0, 0]"
        "''44/3030/0/0/0''" "Some False" "()" "''abc''"] a b be16_6986
    by simp
qed

subsection \<open>Claims about the chunks of signTransaction\<close>

text \<open>
  C2, as the specification states it, fails on the code: the encoded path is not cut
  together with the message, it is always a chunk of its own. With the path
  \<^verbatim>\<open>44/3030/0/0/0\<close>, encoded in 21 bytes, and a message of 600 bytes, four chunks are
  sent, of 21, 250, 250 and 100 bytes, where the rounded-up quotient of 621 by 250 is 3.
\<close>

theorem sign_600_bytes_counterexample:
  "map (length \<circ> payload)
     (sent (trace (signTransaction (reply_with [0x90, 0x00]) (parsed_as [44, 3030, 0, 0, 0])
        ''44/3030/0/0/0'' (replicate 600 CHR ''a'') ((), [])))) = [21, 250, 250, 100]
   \<and> ((600 :: nat) + 21 + 249) div 250 = 3"
  using chunks_600_path5
  by (simp add: sign_reply_with_sent [where fromString = "parsed_as [44, 3030, 0, 0, 0]"
        and path = "''44/3030/0/0/0''", OF parsed_as_Some path5] payload_sign_frames
      flip: map_map)

text \<open>
  C2, amended: for a message of \<open>M\<close> bytes the number of chunks is
  \<open>1 + \<lceil>M / 250\<rceil>\<close>, the encoded path followed by the pieces of the message, so at least
  one chunk even when \<open>M = 0\<close>; all of them are sent unless the transport fails. A message
  of 600 bytes gives four chunks: the encoded path, 250, 250 and 100 bytes.
\<close>

theorem sign_chunk_count:
  assumes "fromString path = Some bipPath" and "serializePath bipPath = Inr sp"
    and "\<forall>c. outcome (signTransaction ex fromString path message (d, [])) \<noteq> Inl (TransportError c)"
  shows "length (chunk_loop (Buffer_from message) 0 [sp]) = 1 + (length message + 249) div 250
     \<and> length (sent (trace (signTransaction ex fromString path message (d, []))))
         = 1 + (length message + 249) div 250
     \<and> (length message = 600 \<longrightarrow>
          map (length \<circ> payload) (sent (trace (signTransaction ex fromString path message (d, []))))
            = [length sp, 250, 250, 100])"
proof -
  let ?chunks = "chunk_loop (Buffer_from message) 0 [sp]"
  let ?run = "signTransaction ex fromString path message (d, [])"
  from sign_sent [where fromString = fromString and path = path and ex = ex
      and message = message and d = d, OF assms(1,2)] assms(3)
  have s: "sent (trace ?run) = sign_frames ?chunks" by auto
  have n: "length ?chunks = 1 + (length message + 249) div 250"
    by (simp add: chunks_Cons length_chunk_loop_Nil)
  have "map (length \<circ> payload) (sent (trace ?run)) = map length ?chunks"
    by (simp add: s payload_sign_frames flip: map_map)
  moreover have "length message = 600 \<longrightarrow> map length ?chunks = [length sp, 250, 250, 100]"
    using chunks_600 [of "Buffer_from message"] by (simp add: chunks_Cons)
  ultimately show ?thesis using s n by simp
qed

theorem sign_chunk_count_witness:
  "parsed_as [44, 3030, 0, 0, 0] ''44/3030/0/0/0'' = Some [44, 3030, 0, 0, 0]
   \<and> serializePath [44, 3030, 0, 0, 0]
       = Inr [5, 0, 0, 0, 44, 0, 0, 0x0b, 0xd6, 0, 0, 0, 0, 0, 0, 0, 0, 0, 0, 0, 0]
   \<and> outcome (signTransaction (reply_with [0x90, 0x00]) (parsed_as [44, 3030, 0, 0, 0])
        ''44/3030/0/0/0'' (replicate 600 CHR ''a'') ((), [])) = sign_result (Some [0x90, 0x00])
   \<and> length (sent (trace (signTransaction (reply_with [0x90, 0x00]) (parsed_as [44, 3030, 0, 0, 0])
        ''44/3030/0/0/0'' (replicate 600 CHR ''a'') ((), [])))) = 4
   \<and> map (length \<circ> payload)
       (sent (trace (signTransaction (reply_with [0x90, 0x00]) (parsed_as [44, 3030, 0, 0, 0])
          ''44/3030/0/0/0'' (replicate 600 CHR ''a'') ((), [])))) = [21, 250, 250, 100]"
proof -
  have o: "outcome (signTransaction (reply_with [0x90, 0x00]) (parsed_as [44, 3030, 0, 0, 0])
        ''44/3030/0/0/0'' (replicate 600 CHR ''a'') ((), [])) = sign_result (Some [0x90, 0x00])"
    by (rule sign_reply_with_sent [where fromString = "parsed_as [44, 3030, 0, 0, 0]"
        and path = "''44/3030/0/0/0''", OF parsed_as_Some path5])
  then have "\<forall>c. outcome (signTransaction (reply_with [0x90, 0x00]) (parsed_as [44, 3030, 0, 0, 0])
        ''44/3030/0/0/0'' (replicate 600 CHR ''a'') ((), [])) \<noteq> Inl (TransportError c)"
    by (simp add: sign_result_not_transport)
  from sign_chunk_count [where fromString = "parsed_as [44, 3030, 0, 0, 0]"
      and path = "''44/3030/0/0/0''" and ex = "reply_with [0x90, 0x00]" and d = "()"
      and message = "replicate 600 CHR ''a''", OF parsed_as_Some path5 this] o
  show ?thesis by (simp add: parsed_as_Some path5)
qed

text \<open>
  C3, as the specification states it, fails on the code: the tag is chosen by testing
  \<^verbatim>\<open>j === 0\<close> first, so the only frame of an operation with one chunk (an empty
  message) carries \<^verbatim>\<open>PAYLOAD_TYPE_INIT\<close>.
\<close>

theorem single_chunk_counterexample:
  "map apdu_p1
     (sent (trace (signTransaction (reply_with [0x90, 0x00]) (parsed_as [44, 3030, 0, 0, 0])
        ''44/3030/0/0/0'' [] ((), [])))) = [PAYLOAD_TYPE_INIT]
   \<and> PAYLOAD_TYPE_INIT \<noteq> PAYLOAD_TYPE_LAST"
  by (simp add: sign_reply_with_sent [where fromString = "parsed_as [44, 3030, 0, 0, 0]"
        and path = "''44/3030/0/0/0''", OF parsed_as_Some path5] chunks_empty_message
      sign_frames_single sign_apdu_def payload_type_def PAYLOAD_TYPE_INIT_def PAYLOAD_TYPE_LAST_def)

text \<open>
  C3, amended: whenever a \<^verbatim>\<open>signTransaction\<close> operation produces exactly one chunk,
  the tag in parameter byte 1 of that single frame is \<^verbatim>\<open>PAYLOAD_TYPE_INIT\<close> (0x00).
\<close>

theorem single_chunk_tagged_INIT:
  assumes "fromString path = Some bipPath" and "serializePath bipPath = Inr sp"
    and "length (chunk_loop (Buffer_from message) 0 [sp]) = 1"
  shows "map apdu_p1 (sent (trace (signTransaction ex fromString path message (d, []))))
           = [PAYLOAD_TYPE_INIT]"
proof -
  let ?chunks = "chunk_loop (Buffer_from message) 0 [sp]"
  from assms(3) have c: "?chunks = [sp]"
    by (simp add: chunks_Cons)
  from sign_sent [where fromString = fromString and path = path and ex = ex
      and message = message and d = d, OF assms(1,2)]
  obtain k where "0 < k" "k \<le> length ?chunks"
    "sent (trace (signTransaction ex fromString path message (d, []))) = take k (sign_frames ?chunks)"
    by blast
  with assms(3) have "sent (trace (signTransaction ex fromString path message (d, [])))
      = sign_frames ?chunks" by simp
  then show ?thesis
    by (simp add: c sign_frames_single sign_apdu_def payload_type_def)
qed

theorem single_chunk_tagged_INIT_witness:
  "parsed_as [44, 3030, 0, 0, 0] ''44/3030/0/0/0'' = Some [44, 3030, 0, 0, 0]
   \<and> serializePath [44, 3030, 0, 0, 0]
       = Inr [5, 0, 0, 0, 44, 0, 0, 0x0b, 0xd6, 0, 0, 0, 0, 0, 0, 0, 0, 0, 0, 0, 0]
   \<and> length (chunk_loop (Buffer_from [])  0
        [[5, 0, 0, 0, 44, 0, 0, 0x0b, 0xd6, 0, 0, 0, 0, 0, 0, 0, 0, 0, 0, 0, 0]]) = 1
   \<and> map apdu_p1 (sent (trace (signTransaction (reply_with [0x69, 0x86])
         (parsed_as [44, 3030, 0, 0, 0]) ''44/3030/0/0/0'' [] ((), [])))) = [PAYLOAD_TYPE_INIT]"
proof -
  have one: "length (chunk_loop (Buffer_from [])  0
        [[5, 0, 0, 0, 44, 0, 0, 0x0b, 0xd6, 0, 0, 0, 0, 0, 0, 0, 0, 0, 0, 0, 0]]) = 1"
    by (simp add: chunks_empty_message)
  from single_chunk_tagged_INIT [where fromString = "parsed_as [44, 3030, 0, 0, 0]"
      and path = "''44/3030/0/0/0''" and ex = "reply_with [0x69, 0x86]" and d = "()"
      and message = "[]", OF parsed_as_Some path5 one] one
  show ?thesis by (simp add: parsed_as_Some path5)
qed

text \<open>
  C5, as the specification states it, fails on the code: the chunk that carries the
  encoded path is sent whole, whatever its length. A path of 63 segments is encoded in
  253 bytes, and that is the size of the first frame's data.
\<close>

theorem sign_path_chunk_counterexample:
  "length (replicate 63 (0 :: u32)) \<le> 255
   \<and> map (length \<circ> payload)
       (sent (trace (signTransaction (reply_with [0x90, 0x00]) (parsed_as (replicate 63 0))
          (concat (replicate 62 ''0/'') @ ''0'') [] ((), [])))) = [253]"
  by (simp add: sign_reply_with_sent [where fromString = "parsed_as (replicate 63 0)"
        and path = "concat (replicate 62 ''0/'') @ ''0''", OF parsed_as_Some path63]
      chunks_empty_message sign_frames_single del: map_replicate)

text \<open>
  C5, amended: for every \<^verbatim>\<open>signTransaction\<close> call whose path has at most 62 segments,
  every chunk sent has data of at most 250 bytes, the chunk of the encoded path included.
\<close>

theorem sign_chunk_sizes:
  assumes "fromString path = Some bipPath" and "length bipPath \<le> 62"
  shows "\<forall>a \<in> set (sent (trace (signTransaction ex fromString path message (d, [])))).
           length (payload a) \<le> 250"
proof
  fix a
  assume a: "a \<in> set (sent (trace (signTransaction ex fromString path message (d, []))))"
  let ?sp = "word_of_nat (length bipPath) # concat (map be32 bipPath)"
  let ?chunks = "chunk_loop (Buffer_from message) 0 [?sp]"
  have sp: "serializePath bipPath = Inr ?sp"
    using assms(2) by (intro serializePath_ok) simp
  from sign_sent [where fromString = fromString and path = path and ex = ex
      and message = message and d = d, OF assms(1) sp]
  obtain k where "sent (trace (signTransaction ex fromString path message (d, [])))
      = take k (sign_frames ?chunks)"
    by blast
  with a have "a \<in> set (sign_frames ?chunks)"
    by (auto dest: in_set_takeD)
  then have "payload a \<in> set (map payload (sign_frames ?chunks))"
    by simp
  then have "payload a \<in> set ?chunks"
    by (simp only: payload_sign_frames)
  then have "payload a = ?sp \<or> payload a \<in> set (chunk_loop (Buffer_from message) 0 [])"
    by (simp add: chunks_Cons)
  then show "length (payload a) \<le> 250"
  proof
    assume "payload a = ?sp"
    with assms(2) show ?thesis by simp
  next
    assume "payload a \<in> set (chunk_loop (Buffer_from message) 0 [])"
    then show ?thesis by (rule chunk_loop_Nil_bound)
  qed
qed

theorem sign_chunk_sizes_witness:
  "parsed_as [44, 3030, 0, 0, 0] ''44/3030/0/0/0'' = Some [44, 3030, 0, 0, 0]
   \<and> length [44, 3030, 0, 0, 0 :: u32] \<le> 62
   \<and> map (length \<circ> payload)
       (sent (trace (signTransaction (reply_with [0x90, 0x00]) (parsed_as [44, 3030, 0, 0, 0])
          ''44/3030/0/0/0'' (replicate 600 CHR ''a'') ((), [])))) = [21, 250, 250, 100]
   \<and> length (payload (hd (sent (trace (signTransaction (reply_with [0x90, 0x00])
          (parsed_as [44, 3030, 0, 0, 0]) ''44/3030/0/0/0'' (replicate 600 CHR ''a'') ((), []))))))
       \<le> 250"
proof -
  let ?run = "signTransaction (reply_with [0x90, 0x00]) (parsed_as [44, 3030, 0, 0, 0])
          ''44/3030/0/0/0'' (replicate 600 CHR ''a'') ((), [])"
  have five: "length [44, 3030, 0, 0, 0 :: u32] \<le> 62" by simp
  have sizes: "map (length \<circ> payload) (sent (trace ?run)) = [21, 250, 250, 100]"
    using chunks_600_path5
    by (simp add: sign_reply_with_sent [where fromString = "parsed_as [44, 3030, 0, 0, 0]"
        and path = "''44/3030/0/0/0''", OF parsed_as_Some path5] payload_sign_frames
      flip: map_map)
  then have "sent (trace ?run) \<noteq> []" by auto
  then have "hd (sent (trace ?run)) \<in> set (sent (trace ?run))" by simp
  with sign_chunk_sizes [where fromString = "parsed_as [44, 3030, 0, 0, 0]"
      and path = "''44/3030/0/0/0''" and ex = "reply_with [0x90, 0x00]" and d = "()"
      and message = "replicate 600 CHR ''a''", OF parsed_as_Some five]
  have "length (payload (hd (sent (trace ?run)))) \<le> 250" by blast
  with sizes show ?thesis by (simp add: parsed_as_Some)
qed

subsection \<open>Claims about the acceptable statuses\<close>

text \<open>
  C6, as the specification states it, fails on the code: \<^verbatim>\<open>getAppConfiguration\<close> calls
  \<^verbatim>\<open>send\<close> with four arguments, without a status list.
\<close>

theorem getAppConfiguration_status_counterexample:
  "map apdu_statusList
     (sent (trace (getAppConfiguration (reply_with [0x00, 1, 2, 3, 0x90, 0x00]) ((), [])))) = [None]
   \<and> \<not> passes_status
         (hd (sent (trace (getAppConfiguration (reply_with [0x00, 1, 2, 3, 0x90, 0x00]) ((), [])))))
         SW_CANCEL"
  by (simp add: getAppConfiguration_def send_reply_with trace_def version_apdu_no_list)

text \<open>
  C6, amended: every send of \<^verbatim>\<open>getAddress\<close> and of \<^verbatim>\<open>signTransaction\<close> passes a
  status list that contains both \<^verbatim>\<open>SW_OK\<close> (0x9000) and \<^verbatim>\<open>SW_CANCEL\<close> (0x6986);
  the one send of \<^verbatim>\<open>getAppConfiguration\<close> passes no status list.
\<close>

theorem status_lists_passed:
  "(\<forall>a \<in> set (sent (trace (getAddress ex fromString path display (d, [])))).
      passes_status a SW_OK \<and> passes_status a SW_CANCEL)
   \<and> (\<forall>a \<in> set (sent (trace (signTransaction ex fromString path message (d, [])))).
      passes_status a SW_OK \<and> passes_status a SW_CANCEL)
   \<and> map apdu_statusList (sent (trace (getAppConfiguration ex (d, [])))) = [None]"
proof (intro conjI ballI)
  fix a
  assume "a \<in> set (sent (trace (getAddress ex fromString path display (d, []))))"
  then have a: "apdu_statusList a = Some [SW_OK, SW_CANCEL]"
    by (rule getAddress_sent_status)
  from a show "passes_status a SW_OK" by (simp add: passes_status_both)
  from a show "passes_status a SW_CANCEL" by (simp add: passes_status_both)
next
  fix a
  assume "a \<in> set (sent (trace (signTransaction ex fromString path message (d, []))))"
  then have a: "apdu_statusList a = Some [SW_OK, SW_CANCEL]"
    by (rule signTransaction_sent_status)
  from a show "passes_status a SW_OK" by (simp add: passes_status_both)
  from a show "passes_status a SW_CANCEL" by (simp add: passes_status_both)
next
  from getAppConfiguration_trace [of ex d]
  show "map apdu_statusList (sent (trace (getAppConfiguration ex (d, [])))) = [None]"
    by auto
qed

theorem status_lists_passed_witness:
  "sent (trace (getAddress (reply_with [0x90, 0x00]) (parsed_as [44, 3030, 0, 0, 0])
      ''44/3030/0/0/0'' (Some False) ((), [])))
     = [address_apdu (Some False) [5, 0, 0, 0, 44, 0, 0, 0x0b, 0xd6, 0, 0, 0, 0, 0, 0, 0, 0, 0, 0, 0, 0]]
   \<and> passes_status
        (address_apdu (Some False) [5, 0, 0, 0, 44, 0, 0, 0x0b, 0xd6, 0, 0, 0, 0, 0, 0, 0, 0, 0, 0, 0, 0])
        SW_OK
   \<and> passes_status
        (address_apdu (Some False) [5, 0, 0, 0, 44, 0, 0, 0x0b, 0xd6, 0, 0, 0, 0, 0, 0, 0, 0, 0, 0, 0, 0])
        SW_CANCEL
   \<and> sent (trace (signTransaction (reply_with [0x90, 0x00]) (parsed_as [44, 3030, 0, 0, 0])
      ''44/3030/0/0/0'' [] ((), [])))
     = [sign_apdu 1 [5, 0, 0, 0, 44, 0, 0, 0x0b, 0xd6, 0, 0, 0, 0, 0, 0, 0, 0, 0, 0, 0, 0] 0]
   \<and> passes_status
        (sign_apdu 1 [5, 0, 0, 0, 44, 0, 0, 0x0b, 0xd6, 0, 0, 0, 0, 0, 0, 0, 0, 0, 0, 0, 0] 0) SW_OK
   \<and> passes_status
        (sign_apdu 1 [5, 0, 0, 0, 44, 0, 0, 0x0b, 0xd6, 0, 0, 0, 0, 0, 0, 0, 0, 0, 0, 0, 0] 0) SW_CANCEL"
proof -
  have a: "sent (trace (getAddress (reply_with [0x90, 0x00]) (parsed_as [44, 3030, 0, 0, 0])
      ''44/3030/0/0/0'' (Some False) ((), [])))
     = [address_apdu (Some False) [5, 0, 0, 0, 44, 0, 0, 0x0b, 0xd6, 0, 0, 0, 0, 0, 0, 0, 0, 0, 0, 0, 0]]"
    by (simp add: getAddress_reply_with [where fromString = "parsed_as [44, 3030, 0, 0, 0]"
          and path = "''44/3030/0/0/0''", OF parsed_as_Some path5] trace_def)
  have b: "sent (trace (signTransaction (reply_with [0x90, 0x00]) (parsed_as [44, 3030, 0, 0, 0])
      ''44/3030/0/0/0'' [] ((), [])))
     = [sign_apdu 1 [5, 0, 0, 0, 44, 0, 0, 0x0b, 0xd6, 0, 0, 0, 0, 0, 0, 0, 0, 0, 0, 0, 0] 0]"
    by (simp add: sign_reply_with_sent [where fromString = "parsed_as [44, 3030, 0, 0, 0]"
        and path = "''44/3030/0/0/0''", OF parsed_as_Some path5] chunks_empty_message
      sign_frames_single)
  from status_lists_passed [of "reply_with [0x90, 0x00]" "parsed_as [44, 3030, 0, 0, 0]"
      "''44/3030/0/0/0''" "Some False" "()" "[]"] a b
  show ?thesis by simp
qed

subsection \<open>Claims about the order of the chunks\<close>

text \<open>
  C7: the chunks of a \<^verbatim>\<open>signTransaction\<close> call, concatenated in order, are the encoded
  path followed by the bytes of the message. The data of the frames sent are these
  chunks in order, all of them unless the transport fails, and then their concatenation
  is that buffer.
\<close>

theorem sign_chunks_concat:
  assumes "fromString path = Some bipPath" and "serializePath bipPath = Inr sp"
  shows "concat (chunk_loop (Buffer_from message) 0 [sp]) = sp @ Buffer_from message
     \<and> prefix (map payload (sent (trace (signTransaction ex fromString path message (d, [])))))
          (chunk_loop (Buffer_from message) 0 [sp])
     \<and> ((\<forall>c. outcome (signTransaction ex fromString path message (d, [])) \<noteq> Inl (TransportError c))
          \<longrightarrow> concat (map payload (sent (trace (signTransaction ex fromString path message (d, [])))))
                = sp @ Buffer_from message)"
proof -
  let ?chunks = "chunk_loop (Buffer_from message) 0 [sp]"
  let ?run = "signTransaction ex fromString path message (d, [])"
  from sign_sent [where fromString = fromString and path = path and ex = ex
      and message = message and d = d, OF assms]
  obtain k where k: "sent (trace ?run) = take k (sign_frames ?chunks)"
    "(\<forall>c. outcome ?run \<noteq> Inl (TransportError c)) \<longrightarrow> k = length ?chunks"
    by blast
  have "map payload (sent (trace ?run)) = take k ?chunks"
    by (simp add: k(1) payload_sign_frames flip: take_map)
  then show ?thesis
    using k(2) by (auto simp add: concat_chunks take_is_prefix)
qed

theorem sign_chunks_concat_witness:
  "parsed_as [44, 3030, 0, 0, 0] ''44/3030/0/0/0'' = Some [44, 3030, 0, 0, 0]
   \<and> serializePath [44, 3030, 0, 0, 0]
       = Inr [5, 0, 0, 0, 44, 0, 0, 0x0b, 0xd6, 0, 0, 0, 0, 0, 0, 0, 0, 0, 0, 0, 0]
   \<and> outcome (signTransaction (reply_with [0x90, 0x00]) (parsed_as [44, 3030, 0, 0, 0])
        ''44/3030/0/0/0'' (replicate 600 CHR ''a'') ((), [])) = sign_result (Some [0x90, 0x00])
   \<and> concat (map payload
        (sent (trace (signTransaction (reply_with [0x90, 0x00]) (parsed_as [44, 3030, 0, 0, 0])
          ''44/3030/0/0/0'' (replicate 600 CHR ''a'') ((), [])))))
       = [5, 0, 0, 0, 44, 0, 0, 0x0b, 0xd6, 0, 0, 0, 0, 0, 0, 0, 0, 0, 0, 0, 0]
           @ Buffer_from (replicate 600 CHR ''a'')"
proof -
  have o: "outcome (signTransaction (reply_with [0x90, 0x00]) (parsed_as [44, 3030, 0, 0, 0])
        ''44/3030/0/0/0'' (replicate 600 CHR ''a'') ((), [])) = sign_result (Some [0x90, 0x00])"
    by (rule sign_reply_with_sent [where fromString = "parsed_as [44, 3030, 0, 0, 0]"
        and path = "''44/3030/0/0/0''", OF parsed_as_Some path5])
  from sign_chunks_concat [where fromString = "parsed_as [44, 3030, 0, 0, 0]"
      and path = "''44/3030/0/0/0''" and ex = "reply_with [0x90, 0x00]" and d = "()"
      and message = "replicate 600 CHR ''a''", OF parsed_as_Some path5] o
  show ?thesis by (simp add: parsed_as_Some path5 sign_result_not_transport)
qed

text \<open>
  C8: in a \<^verbatim>\<open>signTransaction\<close> call every frame sent is followed in the trace by the
  outcome of its exchange before the next frame is sent, so that no two frames are in
  flight together; the frame sent at position \<open>j\<close> is the frame of the chunk of index
  \<open>j\<close>, and all the chunks are sent unless the transport fails.
\<close>

theorem sign_sends_in_sequence:
  assumes "fromString path = Some bipPath" and "serializePath bipPath = Inr sp"
  shows "sequential (trace (signTransaction ex fromString path message (d, [])))
     \<and> length (sent (trace (signTransaction ex fromString path message (d, []))))
          \<le> length (chunk_loop (Buffer_from message) 0 [sp])
     \<and> (\<forall>j < length (sent (trace (signTransaction ex fromString path message (d, [])))).
          sent (trace (signTransaction ex fromString path message (d, []))) ! j
            = sign_apdu (length (chunk_loop (Buffer_from message) 0 [sp]))
                (chunk_loop (Buffer_from message) 0 [sp] ! j) j)
     \<and> ((\<forall>c. outcome (signTransaction ex fromString path message (d, [])) \<noteq> Inl (TransportError c))
          \<longrightarrow> length (sent (trace (signTransaction ex fromString path message (d, []))))
                = length (chunk_loop (Buffer_from message) 0 [sp]))"
proof -
  let ?chunks = "chunk_loop (Buffer_from message) 0 [sp]"
  let ?run = "signTransaction ex fromString path message (d, [])"
  from sign_trace [where fromString = fromString and path = path and ex = ex
      and message = message and d = d, OF assms]
  obtain outs where "trace ?run = interleave (sign_frames ?chunks) outs"
    by blast
  then have seq: "sequential (trace ?run)"
    by (simp add: sequential_interleave)
  from sign_sent [where fromString = fromString and path = path and ex = ex
      and message = message and d = d, OF assms]
  obtain k where k: "k \<le> length ?chunks" "sent (trace ?run) = take k (sign_frames ?chunks)"
    "(\<forall>c. outcome ?run \<noteq> Inl (TransportError c)) \<longrightarrow> k = length ?chunks"
    by blast
  have len: "length (sent (trace ?run)) = k"
    using k(1,2) by simp
  have "sent (trace ?run) ! j = sign_apdu (length ?chunks) (?chunks ! j) j" if "j < k" for j
    using that k(1) by (simp add: k(2) sign_frames_def)
  with seq len k(1,3) show ?thesis by simp
qed

theorem sign_sends_in_sequence_witness:
  "parsed_as [44, 3030, 0, 0, 0] ''44/3030/0/0/0'' = Some [44, 3030, 0, 0, 0]
   \<and> serializePath [44, 3030, 0, 0, 0]
       = Inr [5, 0, 0, 0, 44, 0, 0, 0x0b, 0xd6, 0, 0, 0, 0, 0, 0, 0, 0, 0, 0, 0, 0]
   \<and> outcome (signTransaction (reply_with [0x90, 0x00]) (parsed_as [44, 3030, 0, 0, 0])
        ''44/3030/0/0/0'' (replicate 600 CHR ''a'') ((), [])) = sign_result (Some [0x90, 0x00])
   \<and> sequential (trace (signTransaction (reply_with [0x90, 0x00]) (parsed_as [44, 3030, 0, 0, 0])
        ''44/3030/0/0/0'' (replicate 600 CHR ''a'') ((), [])))
   \<and> length (sent (trace (signTransaction (reply_with [0x90, 0x00]) (parsed_as [44, 3030, 0, 0, 0])
        ''44/3030/0/0/0'' (replicate 600 CHR ''a'') ((), [])))) = 4"
proof -
  have o: "outcome (signTransaction (reply_with [0x90, 0x00]) (parsed_as [44, 3030, 0, 0, 0])
        ''44/3030/0/0/0'' (replicate 600 CHR ''a'') ((), [])) = sign_result (Some [0x90, 0x00])"
    by (rule sign_reply_with_sent [where fromString = "parsed_as [44, 3030, 0, 0, 0]"
        and path = "''44/3030/0/0/0''", OF parsed_as_Some path5])
  have n: "length (chunk_loop (Buffer_from (replicate 600 CHR ''a'')) 0
      [[5, 0, 0, 0, 44, 0, 0, 0x0b, 0xd6, 0, 0, 0, 0, 0, 0, 0, 0, 0, 0, 0, 0]]) = 4"
    by (simp add: chunks_Cons length_chunk_loop_Nil)
  from sign_sends_in_sequence [where fromString = "parsed_as [44, 3030, 0, 0, 0]"
      and path = "''44/3030/0/0/0''" and ex = "reply_with [0x90, 0x00]" and d = "()"
      and message = "replicate 600 CHR ''a''", OF parsed_as_Some path5] o n
  show ?thesis by (simp add: parsed_as_Some path5 sign_result_not_transport)
qed

end
